theory Spec2Isabelle
  imports Complex_Main "HOL-Library.Word"
begin

section \<open>Strings of the source language\<close>

text \<open>
  A JavaScript string is a sequence of 16-bit code units. Regular expressions without the
  \<^verbatim>\<open>u\<close> flag, \<^verbatim>\<open>slice\<close>, \<^verbatim>\<open>trim\<close> and
  \<^verbatim>\<open>split\<close> all work on code units; only \<^verbatim>\<open>for (const ch of word)\<close>
  walks code points (see \<open>code_points\<close> below).
\<close>

type_synonym jschar = "16 word"
type_synonym jstring = "jschar list"

text \<open>ASCII literals: every byte below 128 is the code unit of the same number.\<close>

definition js :: "string \<Rightarrow> jstring" where
  "js s = map (\<lambda>c. of_nat (of_char c)) s"

abbreviation TAB :: jschar where "TAB \<equiv> 9"
abbreviation LF :: jschar where "LF \<equiv> 10"
abbreviation CR :: jschar where "CR \<equiv> 13"
abbreviation SPACE :: jschar where "SPACE \<equiv> 32"
abbreviation HYPHEN :: jschar where "HYPHEN \<equiv> 45"
abbreviation SLASH :: jschar where "SLASH \<equiv> 47"
abbreviation BACKSLASH :: jschar where "BACKSLASH \<equiv> 92"
abbreviation USCORE :: jschar where "USCORE \<equiv> 95"
abbreviation LBRACE :: jschar where "LBRACE \<equiv> 123"
abbreviation RBRACE :: jschar where "RBRACE \<equiv> 125"

subsection \<open>Character classes of the regular expressions\<close>

text \<open>\<^verbatim>\<open>\s\<close>: WhiteSpace and LineTerminator of ECMAScript; \<^verbatim>\<open>trim\<close> strips the same set.\<close>

definition is_ws :: "jschar \<Rightarrow> bool" where
  "is_ws c = (c = 9 \<or> c = 10 \<or> c = 11 \<or> c = 12 \<or> c = 13 \<or> c = 32 \<or> c = 0xA0
     \<or> c = 0x1680 \<or> (0x2000 \<le> c \<and> c \<le> 0x200A) \<or> c = 0x2028 \<or> c = 0x2029
     \<or> c = 0x202F \<or> c = 0x205F \<or> c = 0x3000 \<or> c = 0xFEFF)"

text \<open>\<^verbatim>\<open>[ \t]\<close>\<close>

definition is_hws :: "jschar \<Rightarrow> bool" where
  "is_hws c = (c = SPACE \<or> c = TAB)"

text \<open>\<^verbatim>\<open>\d\<close>\<close>

definition is_digit :: "jschar \<Rightarrow> bool" where
  "is_digit c = (48 \<le> c \<and> c \<le> 57)"

definition is_alnum :: "jschar \<Rightarrow> bool" where
  "is_alnum c = ((97 \<le> c \<and> c \<le> 122) \<or> (65 \<le> c \<and> c \<le> 90) \<or> is_digit c)"

text \<open>\<^verbatim>\<open>[a-zA-Z0-9_]\<close>\<close>

definition is_ident :: "jschar \<Rightarrow> bool" where
  "is_ident c = (is_alnum c \<or> c = USCORE)"

text \<open>\<^verbatim>\<open>[a-zA-Z0-9_-]\<close>, and its complement \<^verbatim>\<open>[^a-zA-Z0-9_-]\<close>\<close>

definition is_slug :: "jschar \<Rightarrow> bool" where
  "is_slug c = (is_alnum c \<or> c = USCORE \<or> c = HYPHEN)"

definition not_slug :: "jschar \<Rightarrow> bool" where
  "not_slug c = (\<not> is_slug c)"

text \<open>\<^verbatim>\<open>[\s/\\]\<close>\<close>

definition is_sep :: "jschar \<Rightarrow> bool" where
  "is_sep c = (is_ws c \<or> c = SLASH \<or> c = BACKSLASH)"

definition is_uscore :: "jschar \<Rightarrow> bool" where
  "is_uscore c = (c = USCORE)"

subsection \<open>Built-in string operations\<close>

text \<open>\<^verbatim>\<open>s.trim()\<close>\<close>

definition trim :: "jstring \<Rightarrow> jstring" where
  "trim s = rev (dropWhile is_ws (rev (dropWhile is_ws s)))"

text \<open>\<^verbatim>\<open>a || b\<close> on strings: the empty string is the only falsy one.\<close>

definition or_else :: "jstring \<Rightarrow> jstring \<Rightarrow> jstring" where
  "or_else a b = (if a = [] then b else a)"

text \<open>
  \<^verbatim>\<open>s.replace(re, f)\<close> for a global regular expression without anchors or
  look-around. A matcher stands for the expression: applied to the text from the current
  position on, it returns what the expression captures and the text after the match, or
  \<open>None\<close> when the expression does not match there. The scan goes left to right; after
  a match it continues behind the match, after an empty match it copies one code unit
  and continues behind it, otherwise it copies one code unit and tries again.
\<close>

type_synonym 'g matcher = "jstring \<Rightarrow> ('g \<times> jstring) option"

function replace_all :: "'g matcher \<Rightarrow> ('g \<Rightarrow> jstring) \<Rightarrow> jstring \<Rightarrow> jstring" where
  "replace_all m f s =
     (case m s of
        Some (g, rest) \<Rightarrow>
          if length rest < length s then f g @ replace_all m f rest
          else (case s of [] \<Rightarrow> f g | c # cs \<Rightarrow> f g @ c # replace_all m f cs)
      | None \<Rightarrow> (case s of [] \<Rightarrow> [] | c # cs \<Rightarrow> c # replace_all m f cs))"
  by pat_completeness auto
termination
  by (relation "measure (\<lambda>(m, f, s). length s)") auto

text \<open>\<^verbatim>\<open>X+\<close> for a character class \<open>X\<close>: the longest non-empty run.\<close>

definition m_plus :: "(jschar \<Rightarrow> bool) \<Rightarrow> unit matcher" where
  "m_plus P s = (if takeWhile P s = [] then None else Some ((), dropWhile P s))"

section \<open>compressBlankLines\<close>

text \<open>\<^verbatim>\<open>/\r\n/\<close>\<close>

definition m_crlf :: "unit matcher" where
  "m_crlf s = (case s of c # d # rest \<Rightarrow> if c = CR \<and> d = LF then Some ((), rest) else None
               | _ \<Rightarrow> None)"

text \<open>
  \<^verbatim>\<open>[ \t]*\n\<close> at the head of the text. The class excludes the newline, so the greedy
  star has a single way to succeed: take the whole run, then see a newline.
\<close>

definition hws_nl :: "jstring \<Rightarrow> jstring option" where
  "hws_nl s = (case dropWhile is_hws s of [] \<Rightarrow> None
               | c # rest \<Rightarrow> if c = LF then Some rest else None)"

text \<open>\<^verbatim>\<open>([ \t]*\n)*\<close>, greedy: the text behind the last repetition.\<close>

function hws_nl_star :: "jstring \<Rightarrow> jstring" where
  "hws_nl_star s = (case hws_nl s of None \<Rightarrow> s | Some rest \<Rightarrow> hws_nl_star rest)"
  by pat_completeness auto
termination
proof (relation "measure length")
  show "wf (measure length)" by simp
next
  fix s rest :: jstring
  assume "hws_nl s = Some rest"
  then have "dropWhile is_hws s = LF # rest"
    by (auto simp: hws_nl_def split: list.splits if_splits)
  then have "length (dropWhile is_hws s) = Suc (length rest)" by simp
  moreover have "length (dropWhile is_hws s) \<le> length s" by (rule length_dropWhile_le)
  ultimately show "(rest, s) \<in> measure length" by simp
qed

text \<open>\<^verbatim>\<open>/\n[ \t]*\n([ \t]*\n)+/\<close>\<close>

definition m_blank :: "unit matcher" where
  "m_blank s =
     (case s of [] \<Rightarrow> None
      | c # cs \<Rightarrow>
          if c \<noteq> LF then None
          else (case hws_nl cs of None \<Rightarrow> None
                | Some r1 \<Rightarrow>
                    (case hws_nl r1 of None \<Rightarrow> None
                     | Some r2 \<Rightarrow> Some ((), hws_nl_star r2))))"

definition compressBlankLines :: "jstring \<Rightarrow> jstring" where
  "compressBlankLines s =
     (if s = [] then []
      else let normalized = replace_all m_crlf (\<lambda>_. [LF]) s
           in replace_all m_blank (\<lambda>_. [LF, LF]) normalized)"

section \<open>slugifyFilePart and the export file names\<close>

definition slugifyFilePart :: "jstring \<Rightarrow> jstring" where
  "slugifyFilePart s =
     take 40
       (replace_all (m_plus is_uscore) (\<lambda>_. [USCORE])
         (replace_all (m_plus not_slug) (\<lambda>_. [])
           (replace_all (m_plus is_sep) (\<lambda>_. [USCORE])
             (trim (or_else s [])))))"


section \<open>applyTemplate\<close>

text \<open>
  \<^verbatim>\<open>/\{\{\s*([a-zA-Z0-9_]+)\s*\}\}/\<close>, capturing the identifier. White space, identifier
  characters and the closing brace are disjoint classes, so each greedy run has a single
  way to succeed.
\<close>

definition m_token :: "jstring matcher" where
  "m_token s =
     (case s of
        c # d # r0 \<Rightarrow>
          if c = LBRACE \<and> d = LBRACE then
            (let r1 = dropWhile is_ws r0;
                 key = takeWhile is_ident r1;
                 r2 = dropWhile is_ident r1;
                 r3 = dropWhile is_ws r2
             in if key = [] then None
                else (case r3 of
                        e # f # rest \<Rightarrow> if e = RBRACE \<and> f = RBRACE then Some (key, rest) else None
                      | _ \<Rightarrow> None))
          else None
      | _ \<Rightarrow> None)"

text \<open>
  The values a property of the \<^verbatim>\<open>values\<close> object can hold here: a string (what the form
  stores), \<^verbatim>\<open>null\<close> or \<^verbatim>\<open>undefined\<close>, or a member that every object inherits from
  \<^verbatim>\<open>Object.prototype\<close>, kept as the text its \<^verbatim>\<open>toString()\<close> yields.
\<close>

datatype jsval = Undefined | Null | Str jstring | Builtin jstring

definition native_fn :: "string \<Rightarrow> jsval" where
  "native_fn name = Builtin (js ''function '' @ js name @ js ''() { [native code] }'')"

text \<open>
  The members of \<^verbatim>\<open>Object.prototype\<close>. \<^verbatim>\<open>values\<close> is built by an object literal, so
  \<^verbatim>\<open>values[key]\<close> finds them when \<^verbatim>\<open>values\<close> has no property of its own under the key.
  (The text of a built-in function is the one V8 prints; other engines differ in white
  space only.)
\<close>

definition object_prototype :: "jstring \<Rightarrow> jsval option" where
  "object_prototype key =
     (if key = js ''constructor'' then Some (native_fn ''Object'')
      else if key = js ''toString'' then Some (native_fn ''toString'')
      else if key = js ''toLocaleString'' then Some (native_fn ''toLocaleString'')
      else if key = js ''valueOf'' then Some (native_fn ''valueOf'')
      else if key = js ''hasOwnProperty'' then Some (native_fn ''hasOwnProperty'')
      else if key = js ''isPrototypeOf'' then Some (native_fn ''isPrototypeOf'')
      else if key = js ''propertyIsEnumerable'' then Some (native_fn ''propertyIsEnumerable'')
      else if key = js ''__defineGetter__'' then Some (native_fn ''__defineGetter__'')
      else if key = js ''__defineSetter__'' then Some (native_fn ''__defineSetter__'')
      else if key = js ''__lookupGetter__'' then Some (native_fn ''__lookupGetter__'')
      else if key = js ''__lookupSetter__'' then Some (native_fn ''__lookupSetter__'')
      else if key = js ''__proto__'' then Some (Builtin (js ''[object Object]''))
      else None)"

text \<open>\<^verbatim>\<open>values[key]\<close>: the object's own property, else the inherited one, else \<^verbatim>\<open>undefined\<close>.\<close>

definition get_prop :: "(jstring \<rightharpoonup> jsval) \<Rightarrow> jstring \<Rightarrow> jsval" where
  "get_prop values key =
     (case values key of
        Some v \<Rightarrow> v
      | None \<Rightarrow> (case object_prototype key of Some b \<Rightarrow> b | None \<Rightarrow> Undefined))"

text \<open>\<^verbatim>\<open>(v ?? "").toString()\<close>\<close>

definition to_text :: "jsval \<Rightarrow> jstring" where
  "to_text v = (case v of Undefined \<Rightarrow> [] | Null \<Rightarrow> [] | Str s \<Rightarrow> s | Builtin t \<Rightarrow> t)"

definition applyTemplate :: "jstring \<Rightarrow> (jstring \<rightharpoonup> jsval) \<Rightarrow> jstring" where
  "applyTemplate template values =
     replace_all m_token (\<lambda>key. to_text (get_prop values key)) template"

section \<open>formatToCanadianLong and the rendered document\<close>

text \<open>\<^verbatim>\<open>/^\d{4}-\d{2}-\d{2}$/.test(value)\<close>\<close>

definition is_iso_date :: "jstring \<Rightarrow> bool" where
  "is_iso_date v =
     (case v of
        [y1, y2, y3, y4, h1, m1, m2, h2, d1, d2] \<Rightarrow>
          is_digit y1 \<and> is_digit y2 \<and> is_digit y3 \<and> is_digit y4 \<and> h1 = HYPHEN \<and>
          is_digit m1 \<and> is_digit m2 \<and> h2 = HYPHEN \<and> is_digit d1 \<and> is_digit d2
      | _ \<Rightarrow> False)"

text \<open>
  A \<^verbatim>\<open>Date\<close> is its time value. The two services of the host are parameters:
  \<open>parse_date\<close> is \<^verbatim>\<open>new Date(text)\<close> with \<open>None\<close> for an invalid date (a
  \<^verbatim>\<open>NaN\<close> time value), \<open>format_date\<close> is
  \<^verbatim>\<open>new Intl.DateTimeFormat("en-CA", {day: "2-digit", month: "long", year: "numeric"}).format\<close>,
  whose pattern comes from the locale data of the host and not from this program.
\<close>

type_synonym jsdate = int

definition formatToCanadianLong ::
  "(jstring \<Rightarrow> jsdate option) \<Rightarrow> (jsdate \<Rightarrow> jstring) \<Rightarrow> jstring \<Rightarrow> jstring" where
  "formatToCanadianLong parse_date format_date v =
     (if v = [] then []
      else if is_iso_date v then
        (case parse_date (v @ js ''T00:00:00'') of
           Some d \<Rightarrow> format_date d
         | None \<Rightarrow> v)
      else v)"

record fields =
  date :: jstring
  employerCompanyName :: jstring
  companyAddressLine1 :: jstring
  companyAddressLine2 :: jstring
  position :: jstring
  template :: jstring

text \<open>The object \<^verbatim>\<open>normalized\<close> built inside \<^verbatim>\<open>rendered\<close>.\<close>

definition normalized ::
  "(jstring \<Rightarrow> jsdate option) \<Rightarrow> (jsdate \<Rightarrow> jstring) \<Rightarrow> fields \<Rightarrow> (jstring \<rightharpoonup> jsval)" where
  "normalized parse_date format_date fs =
     (let employerCompany = trim (or_else (employerCompanyName fs) [])
      in [js ''employerCompanyName'' \<mapsto> Str (employerCompanyName fs),
          js ''companyAddressLine1'' \<mapsto> Str (companyAddressLine1 fs),
          js ''position'' \<mapsto> Str (position fs),
          js ''employerName'' \<mapsto> Str employerCompany,
          js ''companyName'' \<mapsto> Str employerCompany,
          js ''companyAddressLine2'' \<mapsto> Str (or_else (companyAddressLine2 fs) []),
          js ''date'' \<mapsto> Str (formatToCanadianLong parse_date format_date (date fs))])"


section \<open>The fixed-layout export: wrapLine and the drawing loop of downloadPdf\<close>

text \<open>\<^verbatim>\<open>line.split(/\s+/)\<close>: white space at either end leaves an empty first or last word.\<close>

definition not_ws :: "jschar \<Rightarrow> bool" where
  "not_ws c = (\<not> is_ws c)"

function split_ws :: "jstring \<Rightarrow> jstring list" where
  "split_ws s =
     (if dropWhile not_ws s = [] then [takeWhile not_ws s]
      else takeWhile not_ws s # split_ws (dropWhile is_ws (dropWhile not_ws s)))"
  by pat_completeness auto
termination
proof (relation "measure length")
  show "wf (measure length)" by simp
next
  fix s :: jstring
  assume ne: "dropWhile not_ws s \<noteq> []"
  then obtain c r where cr: "dropWhile not_ws s = c # r" by (cases "dropWhile not_ws s") auto
  have "is_ws c" using hd_dropWhile[OF ne] cr by (simp add: not_ws_def)
  then have "dropWhile is_ws (dropWhile not_ws s) = dropWhile is_ws r" using cr by simp
  moreover have "length (dropWhile is_ws r) \<le> length r" by (rule length_dropWhile_le)
  moreover have "length (dropWhile not_ws s) \<le> length s" by (rule length_dropWhile_le)
  ultimately show "(dropWhile is_ws (dropWhile not_ws s), s) \<in> measure length"
    using cr by simp
qed

text \<open>
  \<^verbatim>\<open>for (const ch of word)\<close>: the string iterator yields code points, a surrogate pair as
  one two-unit string and every other code unit alone.
\<close>

definition is_high_surrogate :: "jschar \<Rightarrow> bool" where
  "is_high_surrogate c = (0xD800 \<le> c \<and> c \<le> 0xDBFF)"

definition is_low_surrogate :: "jschar \<Rightarrow> bool" where
  "is_low_surrogate c = (0xDC00 \<le> c \<and> c \<le> 0xDFFF)"

fun code_points :: "jstring \<Rightarrow> jstring list" where
  "code_points [] = []"
| "code_points [c] = [[c]]"
| "code_points (c # d # rest) =
     (if is_high_surrogate c \<and> is_low_surrogate d then [c, d] # code_points rest
      else [c] # code_points (d # rest))"

text \<open>
  \<open>width\<close> stands for \<^verbatim>\<open>font.widthOfTextAtSize(\<cdot>, FONT_SIZE)\<close>. The loops carry their
  variables as a pair: the inner one \<open>(chunk, lines)\<close>, the outer one \<open>(current, lines)\<close>.
\<close>

fun pack_chars ::
  "(jstring \<Rightarrow> 'w::linorder) \<Rightarrow> 'w \<Rightarrow> jstring list \<Rightarrow> jstring \<times> jstring list \<Rightarrow> jstring \<times> jstring list" where
  "pack_chars width maxWidth [] (chunk, lines) = (chunk, lines)"
| "pack_chars width maxWidth (ch # chs) (chunk, lines) =
     (let cand2 = chunk @ ch
      in if width cand2 \<le> maxWidth then pack_chars width maxWidth chs (cand2, lines)
         else pack_chars width maxWidth chs (ch, lines @ [chunk]))"

fun wrap_words ::
  "(jstring \<Rightarrow> 'w::linorder) \<Rightarrow> 'w \<Rightarrow> jstring list \<Rightarrow> jstring \<times> jstring list \<Rightarrow> jstring \<times> jstring list" where
  "wrap_words width maxWidth [] (current, lines) = (current, lines)"
| "wrap_words width maxWidth (word # rest) (current, lines) =
     (let candidate = (if current \<noteq> [] then current @ [SPACE] @ word else word)
      in if width candidate \<le> maxWidth then wrap_words width maxWidth rest (candidate, lines)
         else
           (let lines1 = (if current \<noteq> [] then lines @ [current] else lines)
            in if width word > maxWidth then
                 wrap_words width maxWidth rest
                   (pack_chars width maxWidth (code_points word) ([], lines1))
               else wrap_words width maxWidth rest (word, lines1)))"

definition wrapLine :: "(jstring \<Rightarrow> 'w::linorder) \<Rightarrow> 'w \<Rightarrow> jstring \<Rightarrow> jstring list" where
  "wrapLine width maxWidth line =
     (if trim line = [] then [[]]
      else (case wrap_words width maxWidth (split_ws line) ([], []) of
              (current, lines) \<Rightarrow> if current \<noteq> [] then lines @ [current] else lines))"


definition FONT_SIZE :: real where "FONT_SIZE = 11"



text \<open>
  pdf-lib rejects a text that its font cannot encode: \<^verbatim>\<open>font.widthOfTextAtSize\<close> and
  \<^verbatim>\<open>page.drawText\<close> throw, downloadPdf catches nothing, and the export ends there. A
  measurement is therefore a value of \<open>pdf_error + real\<close>, \<open>Inl\<close> when the call throws.
\<close>

datatype pdf_error = CannotEncode











section \<open>Predicates used to state the properties\<close>

text \<open>The expression matches at no position of the text.\<close>

fun no_match :: "'g matcher \<Rightarrow> jstring \<Rightarrow> bool" where
  "no_match m [] = (m [] = None)"
| "no_match m (c # cs) = (m (c # cs) = None \<and> no_match m cs)"


text \<open>A carriage return stands directly before a CRLF pair.\<close>

fun has_cr_crlf :: "jstring \<Rightarrow> bool" where
  "has_cr_crlf (a # b # c # rest) = ((a = CR \<and> b = CR \<and> c = LF) \<or> has_cr_crlf (b # c # rest))"
| "has_cr_crlf _ = False"







text \<open>The two replacements of compressBlankLines.\<close>

abbreviation unCRLF :: "jstring \<Rightarrow> jstring" where
  "unCRLF \<equiv> replace_all m_crlf (\<lambda>_. [LF])"

abbreviation squeeze :: "jstring \<Rightarrow> jstring" where
  "squeeze \<equiv> replace_all m_blank (\<lambda>_. [LF, LF])"

text \<open>
  The steps of slugifyFilePart in the words of the specification. \<open>squash_runs P r\<close>
  replaces every maximal run of characters of the class \<open>P\<close> by \<open>r\<close>; the flag says
  whether the character before was of the class.
\<close>

primrec squash_runs :: "(jschar \<Rightarrow> bool) \<Rightarrow> jstring \<Rightarrow> bool \<Rightarrow> jstring \<Rightarrow> jstring" where
  "squash_runs P r in_run [] = []"
| "squash_runs P r in_run (c # cs) =
     (if P c then (if in_run then [] else r) @ squash_runs P r True cs
      else c # squash_runs P r False cs)"

text \<open>\<^verbatim>\<open>lines.join(" ")\<close>\<close>

fun join_sp :: "jstring list \<Rightarrow> jstring" where
  "join_sp [] = []"
| "join_sp [l] = l"
| "join_sp (l # ls) = l @ [SPACE] @ join_sp ls"

text \<open>
  The words of a text, and the text with its white space normalised: runs collapsed to one
  space, none at either end.
\<close>

definition words_of :: "jstring \<Rightarrow> jstring list" where
  "words_of s = filter (\<lambda>w. w \<noteq> []) (split_ws s)"

definition normalize_ws :: "jstring \<Rightarrow> jstring" where
  "normalize_ws s = join_sp (words_of s)"

text \<open>
  What wrapLine guarantees of a line it returns, \<open>ws\<close> being the words of the input: it
  fits, or it is empty, or it is one code point of a word that is wider than the page.
\<close>

definition line_ok :: "(jstring \<Rightarrow> 'w::linorder) \<Rightarrow> 'w \<Rightarrow> jstring list \<Rightarrow> jstring \<Rightarrow> bool" where
  "line_ok width maxWidth ws l =
     (width l \<le> maxWidth \<or> l = [] \<or>
      list_ex (\<lambda>w. maxWidth < width w \<and> l \<in> set (code_points w)) ws)"



text \<open>
  The width of a text that the font measures; where the measurement throws, zero. An
  export that is not rejected has measured every text it wrapped, so the zero is met only
  in paragraphs that the export never reached.
\<close>

definition the_width :: "(jstring \<Rightarrow> pdf_error + real) \<Rightarrow> jstring \<Rightarrow> real" where
  "the_width width s = (case width s of Inl e \<Rightarrow> 0 | Inr w \<Rightarrow> w)"

text \<open>
  A placeholder token with its inner white space, and the part of the token expression
  behind the two opening braces.
\<close>

abbreviation token :: "jstring \<Rightarrow> jstring \<Rightarrow> jstring \<Rightarrow> jstring" where
  "token ws1 key ws2 \<equiv> [LBRACE, LBRACE] @ ws1 @ key @ ws2 @ [RBRACE, RBRACE]"

definition tok_tail :: "jstring \<Rightarrow> (jstring \<times> jstring) option" where
  "tok_tail r0 =
     (let r1 = dropWhile is_ws r0;
          key = takeWhile is_ident r1;
          r2 = dropWhile is_ident r1;
          r3 = dropWhile is_ws r2
      in if key = [] then None
         else (case r3 of
                 e # f # rest \<Rightarrow> if e = RBRACE \<and> f = RBRACE then Some (key, rest) else None
               | _ \<Rightarrow> None))"

text \<open>
  A template that contains only recognised placeholders: wherever two opening braces
  stand, a token begins whose key is a property of the values object itself.
\<close>

definition opens_token :: "jstring \<Rightarrow> bool" where
  "opens_token s = (case s of a # b # _ \<Rightarrow> a = LBRACE \<and> b = LBRACE | _ \<Rightarrow> False)"

fun only_placeholders :: "(jstring \<rightharpoonup> jsval) \<Rightarrow> jstring \<Rightarrow> bool" where
  "only_placeholders vals [] = True"
| "only_placeholders vals (c # cs) =
     ((if opens_token (c # cs)
       then (case m_token (c # cs) of Some (key, rest) \<Rightarrow> vals key \<noteq> None | None \<Rightarrow> False)
       else True)
      \<and> only_placeholders vals cs)"

text \<open>Two opening braces in a row occur in the text.\<close>

fun has_open_pair :: "jstring \<Rightarrow> bool" where
  "has_open_pair (a # b # rest) = ((a = LBRACE \<and> b = LBRACE) \<or> has_open_pair (b # rest))"
| "has_open_pair _ = False"

text \<open>Two underscores in a row occur in the text.\<close>

fun has_double_uscore :: "jstring \<Rightarrow> bool" where
  "has_double_uscore (a # b # rest) = ((a = USCORE \<and> b = USCORE) \<or> has_double_uscore (b # rest))"
| "has_double_uscore _ = False"

section \<open>The scan of replace\<close>

declare replace_all.simps [simp del]
declare hws_nl_star.simps [simp del]

lemma replace_all_Nil: "m [] = None \<Longrightarrow> replace_all m f [] = []"
  by (simp add: replace_all.simps)

lemma replace_all_skip: "m (c # cs) = None \<Longrightarrow> replace_all m f (c # cs) = c # replace_all m f cs"
  by (simp add: replace_all.simps)

lemma replace_all_hit:
  "m s = Some (g, rest) \<Longrightarrow> length rest < length s \<Longrightarrow> replace_all m f s = f g @ replace_all m f rest"
  by (simp add: replace_all.simps)

lemma no_match_append: "no_match m (p @ u) \<Longrightarrow> no_match m u"
  by (induction p) (cases u, auto)+

lemma no_match_head: "no_match m (p @ u) \<Longrightarrow> m u = None"
  by (drule no_match_append) (cases u, auto)

lemma replace_all_id: "no_match m x \<Longrightarrow> replace_all m f x = x"
  by (induction x) (auto simp: replace_all_Nil replace_all_skip)

lemma hws_nl_hws [simp]: "is_hws c \<Longrightarrow> hws_nl (c # s) = hws_nl s"
  by (simp add: hws_nl_def)

lemma hws_nl_LF [simp]: "hws_nl (LF # s) = Some s"
  by (simp add: hws_nl_def is_hws_def)

lemma hws_nl_other [simp]: "\<not> is_hws c \<Longrightarrow> c \<noteq> LF \<Longrightarrow> hws_nl (c # s) = None"
  by (simp add: hws_nl_def)

lemma hws_nl_Nil [simp]: "hws_nl [] = None"
  by (simp add: hws_nl_def)

lemma hws_nl_suffix: "hws_nl s = Some r \<Longrightarrow> \<exists>p. s = p @ LF # r \<and> (\<forall>c\<in>set p. is_hws c)"
proof -
  assume "hws_nl s = Some r"
  then have d: "dropWhile is_hws s = LF # r"
    by (auto simp: hws_nl_def split: list.splits if_splits)
  have "s = takeWhile is_hws s @ LF # r"
    using takeWhile_dropWhile_id[of is_hws s] unfolding d by simp
  moreover have "\<forall>c\<in>set (takeWhile is_hws s). is_hws c" by (auto dest: set_takeWhileD)
  ultimately show ?thesis by blast
qed

lemma hws_nl_star_suffix: "\<exists>p. p @ hws_nl_star s = s"
proof (induction s rule: hws_nl_star.induct)
  case (1 s)
  show ?case
  proof (cases "hws_nl s")
    case None
    then show ?thesis by (simp add: hws_nl_star.simps)
  next
    case (Some r)
    from 1[OF Some] obtain p where p: "p @ hws_nl_star r = r" by blast
    from hws_nl_suffix[OF Some] obtain q where q: "s = q @ LF # r" by blast
    have "(q @ LF # p) @ hws_nl_star r = q @ LF # (p @ hws_nl_star r)" by simp
    also have "\<dots> = s" unfolding p q ..
    finally have "(q @ LF # p) @ hws_nl_star r = s" .
    moreover have "hws_nl_star s = hws_nl_star r" using Some by (simp add: hws_nl_star.simps)
    ultimately show ?thesis by metis
  qed
qed

lemma hws_nl_star_max: "hws_nl (hws_nl_star s) = None"
proof (induction s rule: hws_nl_star.induct)
  case (1 s)
  show ?case
  proof (cases "hws_nl s")
    case None
    then show ?thesis by (simp add: hws_nl_star.simps)
  next
    case (Some r)
    then show ?thesis using 1[OF Some] by (simp add: hws_nl_star.simps)
  qed
qed

lemma m_blank_SomeD:
  assumes "m_blank s = Some (g, rest)"
  shows "\<exists>cs r1 r2. s = LF # cs \<and> hws_nl cs = Some r1 \<and> hws_nl r1 = Some r2 \<and> rest = hws_nl_star r2"
  using assms by (auto simp: m_blank_def split: list.splits if_splits option.splits)

lemma m_blank_suffix:
  assumes "m_blank s = Some (g, rest)"
  shows "\<exists>p. s = LF # p @ rest"
proof -
  from m_blank_SomeD[OF assms] obtain cs r1 r2 where
    s: "s = LF # cs" and a: "hws_nl cs = Some r1" and b: "hws_nl r1 = Some r2" and r: "rest = hws_nl_star r2"
    by blast
  from hws_nl_suffix[OF a] obtain p1 where p1: "cs = p1 @ LF # r1" by blast
  from hws_nl_suffix[OF b] obtain p2 where p2: "r1 = p2 @ LF # r2" by blast
  from hws_nl_star_suffix[of r2] obtain p3 where p3: "p3 @ rest = r2" unfolding r by blast
  have "s = LF # p1 @ LF # p2 @ LF # r2" unfolding s p1 p2 ..
  also have "\<dots> = LF # (p1 @ LF # p2 @ LF # p3) @ rest" unfolding p3[symmetric] by simp
  finally show ?thesis by blast
qed

lemma m_blank_length: "m_blank s = Some (g, rest) \<Longrightarrow> length rest < length s"
  by (drule m_blank_suffix) auto

lemma m_blank_max: "m_blank s = Some (g, rest) \<Longrightarrow> hws_nl rest = None"
  by (drule m_blank_SomeD) (auto simp: hws_nl_star_max)

lemma m_blank_Nil [simp]: "m_blank [] = None"
  by (simp add: m_blank_def)

lemma m_blank_not_LF [simp]: "c \<noteq> LF \<Longrightarrow> m_blank (c # cs) = None"
  by (simp add: m_blank_def)

lemma m_blank_LF: "m_blank (LF # cs) = None \<longleftrightarrow> (\<forall>r. hws_nl cs = Some r \<longrightarrow> hws_nl r = None)"
  by (auto simp: m_blank_def split: option.splits)

lemma squeeze_Nil [simp]: "squeeze [] = []"
  by (simp add: replace_all_Nil)

lemma squeeze_hit: "m_blank s = Some (g, rest) \<Longrightarrow> squeeze s = LF # LF # squeeze rest"
  using replace_all_hit[of m_blank s g rest "\<lambda>_. [LF, LF]"] m_blank_length[of s g rest] by simp

lemma squeeze_skip: "m_blank (c # cs) = None \<Longrightarrow> squeeze (c # cs) = c # squeeze cs"
  by (rule replace_all_skip)

lemma hws_nl_squeeze_None: "hws_nl y = None \<Longrightarrow> hws_nl (squeeze y) = None"
proof (induction y)
  case Nil
  then show ?case by simp
next
  case (Cons c cs)
  show ?case
  proof (cases "is_hws c")
    case True
    then have "c \<noteq> LF" by (auto simp: is_hws_def)
    then have "squeeze (c # cs) = c # squeeze cs" by (simp add: squeeze_skip)
    with True Cons show ?thesis by simp
  next
    case False
    with Cons.prems have ne: "c \<noteq> LF" by auto
    then have "squeeze (c # cs) = c # squeeze cs" by (simp add: squeeze_skip)
    with False ne show ?thesis by simp
  qed
qed

lemma hws_nl_squeeze_Some:
  "hws_nl (squeeze y) = Some r \<Longrightarrow> hws_nl r = Some r' \<Longrightarrow> \<exists>t t'. hws_nl y = Some t \<and> hws_nl t = Some t'"
proof (induction y)
  case Nil
  then show ?case by simp
next
  case (Cons c cs)
  show ?case
  proof (cases "c = LF")
    case True
    show ?thesis
    proof (cases "m_blank (c # cs)")
      case None
      then have "squeeze (c # cs) = LF # squeeze cs" using True by (simp add: squeeze_skip)
      with Cons.prems have "r = squeeze cs" by simp
      with Cons.prems(2) have "hws_nl cs \<noteq> None" using hws_nl_squeeze_None[of cs] by auto
      then obtain t' where "hws_nl cs = Some t'" by auto
      with True show ?thesis by simp
    next
      case (Some a)
      then obtain g rest where "m_blank (LF # cs) = Some (g, rest)" using True by (cases a) auto
      from m_blank_SomeD[OF this] show ?thesis using True by auto
    qed
  next
    case False
    then have sq: "squeeze (c # cs) = c # squeeze cs" by (simp add: squeeze_skip)
    show ?thesis
    proof (cases "is_hws c")
      case True
      with sq Cons show ?thesis by simp
    next
      case False
      with \<open>c \<noteq> LF\<close> sq Cons.prems show ?thesis by simp
    qed
  qed
qed

lemma squeeze_no_match: "no_match m_blank (squeeze x)"
proof (induction "length x" arbitrary: x rule: less_induct)
  case less
  show ?case
  proof (cases x)
    case Nil
    then show ?thesis by simp
  next
    case (Cons c cs)
    show ?thesis
    proof (cases "m_blank x")
      case None
      then have sq: "squeeze x = c # squeeze cs" using Cons by (simp add: squeeze_skip)
      have ih: "no_match m_blank (squeeze cs)" using less Cons by simp
      have "m_blank (c # squeeze cs) = None"
      proof (cases "c = LF")
        case False
        then show ?thesis by simp
      next
        case True
        have "hws_nl r = None" if "hws_nl (squeeze cs) = Some r" for r
        proof (cases "hws_nl r")
          case None
          then show ?thesis .
        next
          case (Some r')
          from hws_nl_squeeze_Some[OF that Some] obtain t t'
            where "hws_nl cs = Some t" "hws_nl t = Some t'" by blast
          with None Cons True show ?thesis by (simp add: m_blank_def)
        qed
        then show ?thesis unfolding True m_blank_LF by blast
      qed
      with sq ih show ?thesis by simp
    next
      case (Some a)
      obtain g rest where a: "a = (g, rest)" by (cases a)
      with Some have m: "m_blank x = Some (g, rest)" by simp
      have sq: "squeeze x = LF # LF # squeeze rest" using m by (rule squeeze_hit)
      have ih: "no_match m_blank (squeeze rest)"
        using less m_blank_length[OF m] by simp
      have "hws_nl (squeeze rest) = None" using m_blank_max[OF m] by (rule hws_nl_squeeze_None)
      then have "m_blank (LF # LF # squeeze rest) = None" "m_blank (LF # squeeze rest) = None"
        by (simp_all add: m_blank_def)
      with sq ih show ?thesis by simp
    qed
  qed
qed


lemma m_crlf_simps [simp]:
  "m_crlf [] = None" "m_crlf [c] = None"
  "m_crlf (c # d # rest) = (if c = CR \<and> d = LF then Some ((), rest) else None)"
  by (simp_all add: m_crlf_def)

lemma unCRLF_Nil [simp]: "unCRLF [] = []"
  by (simp add: replace_all_Nil)

lemma unCRLF_hit [simp]: "unCRLF (CR # LF # rest) = LF # unCRLF rest"
  by (simp add: replace_all_hit[of m_crlf _ "()" rest])

lemma unCRLF_skip: "m_crlf (c # cs) = None \<Longrightarrow> unCRLF (c # cs) = c # unCRLF cs"
  by (rule replace_all_skip)

lemma has_cr_crlf_tl: "\<not> has_cr_crlf (c # cs) \<Longrightarrow> \<not> has_cr_crlf cs"
  by (cases cs rule: has_cr_crlf.cases) auto

lemma unCRLF_no_crlf:
  "\<not> has_cr_crlf s \<Longrightarrow>
     no_match m_crlf (unCRLF s) \<and>
     (\<forall>t. unCRLF s = LF # t \<longrightarrow> (\<exists>u. s = LF # u \<or> s = CR # LF # u))"
proof (induction "length s" arbitrary: s rule: less_induct)
  case less
  show ?case
  proof (cases s)
    case Nil
    then show ?thesis by simp
  next
    case (Cons c cs)
    show ?thesis
    proof (cases "m_crlf s")
      case (Some a)
      then obtain rest where s: "s = CR # LF # rest"
        using Cons by (cases cs) (auto split: if_splits)
      then have "\<not> has_cr_crlf rest" using less.prems has_cr_crlf_tl by blast
      then have "no_match m_crlf (unCRLF rest)" using less.hyps[of rest] s by simp
      moreover have "m_crlf (LF # unCRLF rest) = None" by (cases "unCRLF rest") auto
      ultimately show ?thesis using s by simp
    next
      case None
      then have sq: "unCRLF s = c # unCRLF cs" using Cons by (simp add: unCRLF_skip)
      have nc: "\<not> has_cr_crlf cs" using less.prems Cons has_cr_crlf_tl by blast
      then have ih: "no_match m_crlf (unCRLF cs)"
        "\<And>t. unCRLF cs = LF # t \<Longrightarrow> \<exists>u. cs = LF # u \<or> cs = CR # LF # u"
        using less.hyps[of cs] Cons by auto
      have "m_crlf (c # unCRLF cs) = None"
      proof (cases "unCRLF cs")
        case Nil
        then show ?thesis by simp
      next
        case (Cons d t)
        show ?thesis
        proof (cases "c = CR \<and> d = LF")
          case False
          then show ?thesis using Cons by auto
        next
          case True
          with Cons ih(2) obtain u where "cs = LF # u \<or> cs = CR # LF # u" by blast
          then show ?thesis
          proof
            assume "cs = LF # u"
            with None \<open>s = c # cs\<close> True show ?thesis by simp
          next
            assume "cs = CR # LF # u"
            with less.prems \<open>s = c # cs\<close> True show ?thesis by simp
          qed
        qed
      qed
      with sq ih(1) have "no_match m_crlf (unCRLF s)" by simp
      moreover have "\<exists>u. s = LF # u \<or> s = CR # LF # u" if "unCRLF s = LF # t" for t
        using that sq Cons by simp
      ultimately show ?thesis by blast
    qed
  qed
qed

lemma squeeze_no_crlf:
  "no_match m_crlf x \<Longrightarrow>
     no_match m_crlf (squeeze x) \<and> (\<forall>t. squeeze x = LF # t \<longrightarrow> (\<exists>u. x = LF # u))"
proof (induction "length x" arbitrary: x rule: less_induct)
  case less
  show ?case
  proof (cases x)
    case Nil
    then show ?thesis by simp
  next
    case (Cons c cs)
    show ?thesis
    proof (cases "m_blank x")
      case None
      then have sq: "squeeze x = c # squeeze cs" using Cons by (simp add: squeeze_skip)
      have nc: "no_match m_crlf cs" and hd: "m_crlf (c # cs) = None" using less.prems Cons by simp_all
      then have ih: "no_match m_crlf (squeeze cs)"
        "\<And>t. squeeze cs = LF # t \<Longrightarrow> \<exists>u. cs = LF # u"
        using less.hyps[of cs] Cons by auto
      have "m_crlf (c # squeeze cs) = None"
      proof (cases "squeeze cs")
        case Nil
        then show ?thesis by simp
      next
        case (Cons d t)
        show ?thesis
        proof (cases "c = CR \<and> d = LF")
          case False
          then show ?thesis using Cons by auto
        next
          case True
          with Cons ih(2) obtain u where "cs = LF # u" by blast
          with hd True show ?thesis by simp
        qed
      qed
      with sq ih(1) show ?thesis using Cons by simp
    next
      case (Some a)
      obtain g rest where a: "a = (g, rest)" by (cases a)
      with Some have m: "m_blank x = Some (g, rest)" by simp
      have sq: "squeeze x = LF # LF # squeeze rest" using m by (rule squeeze_hit)
      from m_blank_suffix[OF m] obtain p where p: "x = LF # p @ rest" by blast
      then have "x = (LF # p) @ rest" by simp
      then have "no_match m_crlf rest" using less.prems no_match_append by metis
      then have ih: "no_match m_crlf (squeeze rest)"
        using less.hyps[of rest] m_blank_length[OF m] by simp
      have "m_crlf (LF # LF # squeeze rest) = None" by simp
      moreover have "m_crlf (LF # squeeze rest) = None" by (cases "squeeze rest") auto
      ultimately show ?thesis using sq ih p by simp
    qed
  qed
qed





















section \<open>Properties of compressBlankLines\<close>

text \<open>
  Claim C3, as amended. For every string \<open>s\<close> in which no carriage return stands directly
  before a CRLF pair, compressBlankLines is idempotent:
  \<open>compressBlankLines (compressBlankLines s) = compressBlankLines s\<close>.
\<close>

theorem compressBlankLines_idempotent:
  assumes "\<not> has_cr_crlf s"
  shows "compressBlankLines (compressBlankLines s) = compressBlankLines s"
proof (cases "compressBlankLines s = []")
  case True
  then show ?thesis by (simp add: compressBlankLines_def)
next
  case False
  then have s: "s \<noteq> []" by (auto simp: compressBlankLines_def)
  then have c: "compressBlankLines s = squeeze (unCRLF s)" by (simp add: compressBlankLines_def)
  have "no_match m_crlf (unCRLF s)" using unCRLF_no_crlf[OF assms] by blast
  then have "no_match m_crlf (squeeze (unCRLF s))" using squeeze_no_crlf by blast
  then have "unCRLF (squeeze (unCRLF s)) = squeeze (unCRLF s)" by (rule replace_all_id)
  moreover have "squeeze (squeeze (unCRLF s)) = squeeze (unCRLF s)"
    using squeeze_no_match by (rule replace_all_id)
  ultimately show ?thesis using False c by (simp add: compressBlankLines_def)
qed

text \<open>The theorem at \<open>"a\r\n\r\n\r\nb"\<close>, which compresses to \<open>"a\n\nb"\<close>.\<close>

theorem compressBlankLines_idempotent_witness:
  "\<not> has_cr_crlf [97, CR, LF, CR, LF, CR, LF, 98] \<and>
   compressBlankLines [97, CR, LF, CR, LF, CR, LF, 98] = [97, LF, LF, 98] \<and>
   compressBlankLines (compressBlankLines [97, CR, LF, CR, LF, CR, LF, 98]) =
     compressBlankLines [97, CR, LF, CR, LF, CR, LF, 98]"
proof -
  have h: "\<not> has_cr_crlf [97, CR, LF, CR, LF, CR, LF, 98]" by simp
  have e: "compressBlankLines [97, CR, LF, CR, LF, CR, LF, 98] = [97, LF, LF, 98]"
    by (simp add: compressBlankLines_def replace_all.simps m_blank_def hws_nl_def is_hws_def
        hws_nl_star.simps)
  show ?thesis using h e compressBlankLines_idempotent[OF h] by simp
qed

text \<open>
  Claim C3 as stated fails at \<open>"\r\r\n"\<close>: the single pass over CRLF pairs leaves
  \<open>"\r\n"\<close>, which a second application turns into \<open>"\n"\<close>.
\<close>

theorem compressBlankLines_idempotent_counterexample:
  "compressBlankLines [CR, CR, LF] = [CR, LF] \<and>
   compressBlankLines (compressBlankLines [CR, CR, LF]) = [LF] \<and>
   compressBlankLines (compressBlankLines [CR, CR, LF]) \<noteq> compressBlankLines [CR, CR, LF]"
  by (simp add: compressBlankLines_def replace_all.simps m_blank_def hws_nl_def is_hws_def)




section \<open>Properties of slugifyFilePart\<close>

lemma squash_runs_in_run: "squash_runs P r True s = squash_runs P r False (dropWhile P s)"
  by (induction s) auto

lemma m_plus_None: "\<not> P c \<Longrightarrow> m_plus P (c # cs) = None"
  by (simp add: m_plus_def)

lemma m_plus_Some: "P c \<Longrightarrow> m_plus P (c # cs) = Some ((), dropWhile P cs)"
  by (simp add: m_plus_def)

lemma m_plus_Nil: "m_plus P [] = None"
  by (simp add: m_plus_def)

lemma replace_plus_squash_runs: "replace_all (m_plus P) (\<lambda>_. r) s = squash_runs P r False s"
proof (induction "length s" arbitrary: s rule: less_induct)
  case less
  show ?case
  proof (cases s)
    case Nil
    then show ?thesis by (simp add: replace_all_Nil m_plus_Nil)
  next
    case (Cons c cs)
    show ?thesis
    proof (cases "P c")
      case True
      have len: "length (dropWhile P cs) < length s"
        using length_dropWhile_le[of P cs] Cons by simp
      have "replace_all (m_plus P) (\<lambda>_. r) s = r @ replace_all (m_plus P) (\<lambda>_. r) (dropWhile P cs)"
        using replace_all_hit[of "m_plus P" s "()" "dropWhile P cs" "\<lambda>_. r"] len True Cons
        by (simp add: m_plus_Some)
      also have "\<dots> = r @ squash_runs P r False (dropWhile P cs)" using less len by simp
      finally show ?thesis using True Cons by (simp add: squash_runs_in_run)
    next
      case False
      then have "replace_all (m_plus P) (\<lambda>_. r) s = c # replace_all (m_plus P) (\<lambda>_. r) cs"
        using Cons by (simp add: replace_all_skip m_plus_None)
      then show ?thesis using less Cons False by simp
    qed
  qed
qed

lemma squash_runs_empty_filter: "squash_runs P [] b s = filter (\<lambda>c. \<not> P c) s"
  by (induction s arbitrary: b) auto

lemma slugify_squash:
  "slugifyFilePart s =
     take 40 (squash_runs is_uscore [USCORE] False (filter is_slug (squash_runs is_sep [USCORE] False (trim s))))"
  by (simp add: slugifyFilePart_def replace_plus_squash_runs squash_runs_empty_filter not_slug_def or_else_def)



lemma squash_runs_uscore_hd: "squash_runs is_uscore [USCORE] True s = USCORE # t \<Longrightarrow> False"
  by (induction s) (auto simp: is_uscore_def split: if_splits)

lemma no_double_squash_runs: "\<not> has_double_uscore (squash_runs is_uscore [USCORE] b s)"
proof (induction s arbitrary: b)
  case Nil
  then show ?case by simp
next
  case (Cons c cs)
  show ?case
  proof (cases "is_uscore c")
    case True
    have t: "\<not> has_double_uscore (squash_runs is_uscore [USCORE] True cs)" by (rule Cons)
    have "\<not> has_double_uscore (USCORE # squash_runs is_uscore [USCORE] True cs)"
    proof (cases "squash_runs is_uscore [USCORE] True cs")
      case Nil
      then show ?thesis by simp
    next
      case (Cons d ds)
      with squash_runs_uscore_hd[of cs ds] have "d \<noteq> USCORE" by auto
      with Cons t show ?thesis by simp
    qed
    with True t show ?thesis by simp
  next
    case False
    have t: "\<not> has_double_uscore (squash_runs is_uscore [USCORE] False cs)" by (rule Cons)
    have "\<not> has_double_uscore (c # squash_runs is_uscore [USCORE] False cs)"
      using t False by (cases "squash_runs is_uscore [USCORE] False cs") (auto simp: is_uscore_def)
    with False show ?thesis by simp
  qed
qed

lemma no_double_take: "\<not> has_double_uscore s \<Longrightarrow> \<not> has_double_uscore (take n s)"
proof (induction s arbitrary: n rule: has_double_uscore.induct)
  case (1 a b rest)
  show ?case
  proof (cases n)
    case 0
    then show ?thesis by simp
  next
    case (Suc k)
    show ?thesis
    proof (cases k)
      case 0
      with Suc show ?thesis by simp
    next
      case (Suc j)
      with 1 \<open>n = Suc k\<close> show ?thesis using "1.IH"[of k] by auto
    qed
  qed
qed (auto simp: take_Cons')



text \<open>
  Beyond the claims: slugifyFilePart never returns two underscores in a row.
\<close>

theorem slugifyFilePart_no_double_underscore:
  "\<not> has_double_uscore (slugifyFilePart s)"
  unfolding slugify_squash by (rule no_double_take) (rule no_double_squash_runs)

section \<open>Properties of wrapLine\<close>

declare split_ws.simps [simp del]

lemma pack_chars_ok:
  assumes "\<forall>ch\<in>set chs. line_ok width maxWidth ws ch"
    and "line_ok width maxWidth ws chunk"
    and "\<forall>l\<in>set lines. line_ok width maxWidth ws l"
    and "pack_chars width maxWidth chs (chunk, lines) = (chunk', lines')"
  shows "line_ok width maxWidth ws chunk' \<and> (\<forall>l\<in>set lines'. line_ok width maxWidth ws l)"
  using assms
proof (induction chs arbitrary: chunk lines)
  case Nil
  then show ?case by simp
next
  case (Cons ch chs)
  have c: "\<forall>ch\<in>set chs. line_ok width maxWidth ws ch" and h: "line_ok width maxWidth ws ch"
    using Cons.prems(1) by simp_all
  show ?case
  proof (cases "width (chunk @ ch) \<le> maxWidth")
    case True
    then have ok: "line_ok width maxWidth ws (chunk @ ch)" by (simp add: line_ok_def)
    have p: "pack_chars width maxWidth chs (chunk @ ch, lines) = (chunk', lines')"
      using Cons.prems(4) True by simp
    show ?thesis by (rule Cons.IH[OF c ok Cons.prems(3) p])
  next
    case False
    then have p: "pack_chars width maxWidth chs (ch, lines @ [chunk]) = (chunk', lines')"
      using Cons.prems(4) by simp
    have l: "\<forall>l\<in>set (lines @ [chunk]). line_ok width maxWidth ws l"
      using Cons.prems(2,3) by simp
    show ?thesis by (rule Cons.IH[OF c h l p])
  qed
qed

lemma wrap_words_ok:
  assumes "set words \<subseteq> set ws"
    and "line_ok width maxWidth ws current"
    and "\<forall>l\<in>set lines. line_ok width maxWidth ws l"
    and "wrap_words width maxWidth words (current, lines) = (current', lines')"
  shows "line_ok width maxWidth ws current' \<and> (\<forall>l\<in>set lines'. line_ok width maxWidth ws l)"
  using assms
proof (induction words arbitrary: current lines)
  case Nil
  then show ?case by simp
next
  case (Cons word rest)
  let ?cand = "if current \<noteq> [] then current @ [SPACE] @ word else word"
  let ?lines1 = "if current \<noteq> [] then lines @ [current] else lines"
  have rest: "set rest \<subseteq> set ws" and w: "word \<in> set ws" using Cons.prems(1) by auto
  have l1: "\<forall>l\<in>set ?lines1. line_ok width maxWidth ws l" using Cons.prems(2,3) by simp
  show ?case
  proof (cases "width ?cand \<le> maxWidth")
    case True
    then have "line_ok width maxWidth ws ?cand" by (simp add: line_ok_def)
    moreover have "wrap_words width maxWidth rest (?cand, lines) = (current', lines')"
      using Cons.prems(4) True by (simp add: Let_def)
    ultimately show ?thesis using Cons.IH[OF rest _ Cons.prems(3)] by blast
  next
    case False
    show ?thesis
    proof (cases "width word > maxWidth")
      case True
      obtain chunk lines2 where p: "pack_chars width maxWidth (code_points word) ([], ?lines1) = (chunk, lines2)"
        by (cases "pack_chars width maxWidth (code_points word) ([], ?lines1)") auto
      have "\<forall>ch\<in>set (code_points word). line_ok width maxWidth ws ch"
        using True w by (auto simp: line_ok_def list_ex_iff)
      moreover have "line_ok width maxWidth ws []" by (simp add: line_ok_def)
      ultimately have ok: "line_ok width maxWidth ws chunk \<and> (\<forall>l\<in>set lines2. line_ok width maxWidth ws l)"
        using pack_chars_ok[OF _ _ l1 p] by blast
      have "wrap_words width maxWidth rest (chunk, lines2) = (current', lines')"
        using Cons.prems(4) False True p by (simp add: Let_def)
      then show ?thesis using Cons.IH[OF rest] ok by blast
    next
      case nover: False
      then have "line_ok width maxWidth ws word" by (simp add: line_ok_def not_less)
      moreover have "wrap_words width maxWidth rest (word, ?lines1) = (current', lines')"
        using Cons.prems(4) False nover by (simp add: Let_def)
      ultimately show ?thesis using Cons.IH[OF rest _ l1] by blast
    qed
  qed
qed

lemma wrapLine_ok:
  "l \<in> set (wrapLine width maxWidth line) \<Longrightarrow> line_ok width maxWidth (split_ws line) l"
proof (cases "trim line = []")
  case True
  assume "l \<in> set (wrapLine width maxWidth line)"
  with True show ?thesis by (simp add: wrapLine_def line_ok_def)
next
  case False
  assume a: "l \<in> set (wrapLine width maxWidth line)"
  obtain current lines where ww: "wrap_words width maxWidth (split_ws line) ([], []) = (current, lines)"
    by (cases "wrap_words width maxWidth (split_ws line) ([], [])") auto
  have "line_ok width maxWidth (split_ws line) []" by (simp add: line_ok_def)
  then have "line_ok width maxWidth (split_ws line) current \<and>
      (\<forall>l\<in>set lines. line_ok width maxWidth (split_ws line) l)"
    using wrap_words_ok[OF _ _ _ ww, of "split_ws line"] by simp
  moreover have "l \<in> set lines \<or> l = current"
    using a False ww by (auto simp: wrapLine_def split: if_splits)
  ultimately show ?thesis by blast
qed

lemma split_ws_Nil [simp]: "split_ws [] = [[]]"
  by (simp add: split_ws.simps)

lemma words_of_Nil [simp]: "words_of [] = []"
  by (simp add: words_of_def)

lemma split_ws_ws: "is_ws c \<Longrightarrow> split_ws (c # cs) = [] # split_ws (dropWhile is_ws cs)"
  by (subst split_ws.simps) (simp add: not_ws_def)

lemma words_of_dropWhile: "words_of (dropWhile is_ws b) = words_of b"
proof (cases b)
  case Nil
  then show ?thesis by simp
next
  case (Cons c cs)
  show ?thesis
  proof (cases "is_ws c")
    case True
    then show ?thesis using Cons by (simp add: words_of_def split_ws_ws)
  next
    case False
    then show ?thesis using Cons by simp
  qed
qed

lemma dropWhile_append_dropWhile: "dropWhile P (xs @ ys) = dropWhile P (dropWhile P xs @ ys)"
  by (induction xs) auto

lemma words_of_append_ws:
  "is_ws c \<Longrightarrow> words_of (a @ c # b) = words_of a @ words_of b"
proof (induction a rule: split_ws.induct)
  case (1 a)
  let ?w = "takeWhile not_ws a" and ?r = "dropWhile not_ws a"
  have nc: "\<not> not_ws c" using 1(2) by (simp add: not_ws_def)
  show ?case
  proof (cases "?r = []")
    case True
    then have all: "\<forall>x\<in>set a. not_ws x" by (simp add: dropWhile_eq_Nil_conv)
    then have tw: "takeWhile not_ws (a @ c # b) = a" and dw: "dropWhile not_ws (a @ c # b) = c # b"
      using nc by (simp_all add: takeWhile_append2 dropWhile_append2)
    have "split_ws (a @ c # b) = a # split_ws (dropWhile is_ws b)"
      by (subst split_ws.simps) (simp add: tw dw 1(2))
    moreover have "split_ws a = [a]" using True all by (subst split_ws.simps) simp
    ultimately show ?thesis
      using words_of_dropWhile[of b] by (simp add: words_of_def)
  next
    case False
    then obtain x where x: "x \<in> set a" "\<not> not_ws x"
      by (auto simp: dropWhile_eq_Nil_conv)
    have tw: "takeWhile not_ws (a @ c # b) = ?w" using x by (simp add: takeWhile_append1)
    have dw: "dropWhile not_ws (a @ c # b) = ?r @ c # b" using x by (simp add: dropWhile_append1)
    have s1: "split_ws (a @ c # b) = ?w # split_ws (dropWhile is_ws (?r @ c # b))"
      by (subst split_ws.simps) (simp only: tw dw, simp)
    have s2: "split_ws a = ?w # split_ws (dropWhile is_ws ?r)"
      by (subst split_ws.simps) (simp only: False if_False)
    have "words_of (dropWhile is_ws (?r @ c # b)) = words_of (dropWhile is_ws (dropWhile is_ws ?r @ c # b))"
      by (subst dropWhile_append_dropWhile) simp
    also have "\<dots> = words_of (dropWhile is_ws ?r @ c # b)" by (rule words_of_dropWhile)
    also have "\<dots> = words_of (dropWhile is_ws ?r) @ words_of b" using 1(1)[OF False 1(2)] .
    finally show ?thesis using s1 s2 by (simp add: words_of_def)
  qed
qed

lemma split_ws_no_ws: "w \<in> set (split_ws s) \<Longrightarrow> \<forall>c\<in>set w. not_ws c"
proof (induction s rule: split_ws.induct)
  case (1 s)
  show ?case
  proof (cases "dropWhile not_ws s = []")
    case True
    then have "split_ws s = [takeWhile not_ws s]" by (subst split_ws.simps) simp
    with 1(2) show ?thesis by (auto dest: set_takeWhileD)
  next
    case False
    then have "split_ws s = takeWhile not_ws s # split_ws (dropWhile is_ws (dropWhile not_ws s))"
      by (subst split_ws.simps) (simp only: if_False)
    with 1(2) have "w = takeWhile not_ws s \<or> w \<in> set (split_ws (dropWhile is_ws (dropWhile not_ws s)))"
      by simp
    then show ?thesis using 1(1)[OF False] by (auto dest: set_takeWhileD)
  qed
qed

lemma words_of_word: "\<forall>c\<in>set w. not_ws c \<Longrightarrow> words_of w = (if w = [] then [] else [w])"
proof -
  assume a: "\<forall>c\<in>set w. not_ws c"
  then have "dropWhile not_ws w = []" "takeWhile not_ws w = w" by simp_all
  then have "split_ws w = [w]" by (subst split_ws.simps) simp
  then show ?thesis by (simp add: words_of_def)
qed

lemma words_of_join: "words_of (join_sp ls) = concat (map words_of ls)"
proof (induction ls rule: join_sp.induct)
  case (3 l v va)
  have "is_ws SPACE" by (simp add: is_ws_def)
  from words_of_append_ws[OF this, of l "join_sp (v # va)"] 3 show ?case by simp
qed simp_all

lemma wrap_words_words:
  assumes "\<forall>w\<in>set words. (\<forall>c\<in>set w. not_ws c) \<and> (w \<noteq> [] \<longrightarrow> width w \<le> maxWidth)"
    and "wrap_words width maxWidth words (current, lines) = (current', lines')"
  shows "concat (map words_of lines') @ words_of current' =
         concat (map words_of lines) @ words_of current @ filter (\<lambda>w. w \<noteq> []) words"
  using assms
proof (induction words arbitrary: current lines)
  case Nil
  then show ?case by simp
next
  case (Cons word rest)
  let ?cand = "if current \<noteq> [] then current @ [SPACE] @ word else word"
  let ?lines1 = "if current \<noteq> [] then lines @ [current] else lines"
  have r: "\<forall>w\<in>set rest. (\<forall>c\<in>set w. not_ws c) \<and> (w \<noteq> [] \<longrightarrow> width w \<le> maxWidth)"
    using Cons.prems(1) by simp
  have nw: "\<forall>c\<in>set word. not_ws c" and fit: "word \<noteq> [] \<Longrightarrow> width word \<le> maxWidth"
    using Cons.prems(1) by simp_all
  have ww: "words_of word = filter (\<lambda>w. w \<noteq> []) [word]" using words_of_word[OF nw] by simp
  have sp: "is_ws SPACE" by (simp add: is_ws_def)
  have wc: "words_of ?cand = words_of current @ words_of word"
    using words_of_append_ws[OF sp, of current word] by simp
  have l1: "concat (map words_of ?lines1) = concat (map words_of lines) @ words_of current"
    by simp
  show ?case
  proof (cases "width ?cand \<le> maxWidth")
    case True
    then have "wrap_words width maxWidth rest (?cand, lines) = (current', lines')"
      using Cons.prems(2) by (simp add: Let_def)
    from Cons.IH[OF r this] show ?thesis unfolding wc ww by simp
  next
    case False
    show ?thesis
    proof (cases "width word > maxWidth")
      case True
      then have e: "word = []" using fit by (auto simp: not_less[symmetric])
      have "wrap_words width maxWidth rest
              (pack_chars width maxWidth (code_points word) ([], ?lines1)) = (current', lines')"
        using Cons.prems(2) False True by (simp add: Let_def)
      then have "wrap_words width maxWidth rest ([], ?lines1) = (current', lines')"
        unfolding e by simp
      from Cons.IH[OF r this] show ?thesis unfolding l1 using e by simp
    next
      case nover: False
      then have "wrap_words width maxWidth rest (word, ?lines1) = (current', lines')"
        using Cons.prems(2) False by (simp add: Let_def)
      from Cons.IH[OF r this] show ?thesis unfolding l1 ww by simp
    qed
  qed
qed

lemma dropWhile_all_iff: "(\<forall>c\<in>set (dropWhile P s). P c) \<longleftrightarrow> (\<forall>c\<in>set s. P c)"
  by (induction s) auto

lemma trim_Nil_iff: "trim s = [] \<longleftrightarrow> (\<forall>c\<in>set s. is_ws c)"
  by (simp add: trim_def dropWhile_all_iff)

lemma words_of_blank: "trim s = [] \<Longrightarrow> words_of s = []"
proof -
  assume "trim s = []"
  then have "dropWhile is_ws s = []" by (simp add: trim_Nil_iff dropWhile_eq_Nil_conv)
  with words_of_dropWhile[of s] show ?thesis by simp
qed

lemma wrapLine_words:
  assumes "\<forall>w\<in>set (split_ws line). w \<noteq> [] \<longrightarrow> width w \<le> maxWidth"
  shows "words_of (join_sp (wrapLine width maxWidth line)) = words_of line"
proof (cases "trim line = []")
  case True
  then show ?thesis by (simp add: wrapLine_def words_of_blank)
next
  case False
  obtain current lines where ww: "wrap_words width maxWidth (split_ws line) ([], []) = (current, lines)"
    by (cases "wrap_words width maxWidth (split_ws line) ([], [])") auto
  have "\<forall>w\<in>set (split_ws line). (\<forall>c\<in>set w. not_ws c) \<and> (w \<noteq> [] \<longrightarrow> width w \<le> maxWidth)"
    using assms split_ws_no_ws by blast
  from wrap_words_words[OF this ww]
  have g: "concat (map words_of lines) @ words_of current = words_of line"
    by (simp add: words_of_def)
  have "wrapLine width maxWidth line = (if current \<noteq> [] then lines @ [current] else lines)"
    using False ww by (simp add: wrapLine_def)
  then have "concat (map words_of (wrapLine width maxWidth line)) = concat (map words_of lines) @ words_of current"
    by simp
  with g show ?thesis by (simp add: words_of_join)
qed




text \<open>
  Beyond the claims: where the empty string fits and every single character of the line
  fits, every line that wrapLine returns fits.
\<close>

theorem wrapLine_all_fit:
  assumes "width [] \<le> maxWidth"
    and "\<forall>w\<in>set (split_ws line). \<forall>ch\<in>set (code_points w). width ch \<le> maxWidth"
  shows "\<forall>l\<in>set (wrapLine width maxWidth line). width l \<le> maxWidth"
proof
  fix l assume "l \<in> set (wrapLine width maxWidth line)"
  from wrapLine_ok[OF this] show "width l \<le> maxWidth"
    using assms by (auto simp: line_ok_def list_ex_iff)
qed

text \<open>The theorem at the line \<open>"abcdefgh ij"\<close> for the width 3, widths counted in code units.\<close>

theorem wrapLine_all_fit_witness:
  "wrapLine length (3::nat) (js ''abcdefgh ij'') = [js ''abc'', js ''def'', js ''gh'', js ''ij''] \<and>
   list_all (\<lambda>l. length l \<le> (3::nat)) (wrapLine length (3::nat) (js ''abcdefgh ij''))"
proof -
  have s: "split_ws (js ''abcdefgh ij'') = [js ''abcdefgh'', js ''ij'']"
    by (simp add: js_def is_ws_def split_ws.simps not_ws_def)
  have h: "\<forall>w\<in>set (split_ws (js ''abcdefgh ij'')). \<forall>ch\<in>set (code_points w). length ch \<le> (3::nat)"
    unfolding s by (simp add: js_def is_high_surrogate_def is_low_surrogate_def)
  have e: "wrapLine length (3::nat) (js ''abcdefgh ij'') = [js ''abc'', js ''def'', js ''gh'', js ''ij'']"
    by (simp add: wrapLine_def js_def trim_def is_ws_def split_ws.simps not_ws_def
        is_high_surrogate_def is_low_surrogate_def)
  have "length ([] :: jstring) \<le> (3::nat)" by simp
  from wrapLine_all_fit[OF this h] e show ?thesis by (simp add: list_all_iff)
qed

text \<open>
  Claim C2, as amended. For every input line in which no word alone exceeds \<open>maxWidth\<close>,
  joining the strings returned by wrapLine with single spaces gives the original line up
  to white space: the same words in the same order, none dropped or repeated, hence the
  same text once white space is normalised. An empty or blank line yields exactly one
  empty output line.
\<close>

theorem wrapLine_reconstruction:
  assumes "\<forall>w\<in>set (split_ws line). w \<noteq> [] \<longrightarrow> width w \<le> maxWidth"
  shows "words_of (join_sp (wrapLine width maxWidth line)) = words_of line \<and>
         normalize_ws (join_sp (wrapLine width maxWidth line)) = normalize_ws line \<and>
         (trim line = [] \<longrightarrow> wrapLine width maxWidth line = [[]])"
  using wrapLine_words[OF assms] by (simp add: normalize_ws_def wrapLine_def)

text \<open>
  The theorem at the line \<open>" ab cd  efg h "\<close>, widths counted in code units, for the
  width 7: the lines are \<open>"ab cd"\<close> and \<open>"efg h "\<close>.
\<close>

theorem wrapLine_reconstruction_witness:
  "list_all (\<lambda>w. length w \<le> (7::nat)) (split_ws (js '' ab cd  efg h '')) \<and>
   join_sp (wrapLine length (7::nat) (js '' ab cd  efg h '')) = js ''ab cd efg h '' \<and>
   words_of (join_sp (wrapLine length (7::nat) (js '' ab cd  efg h ''))) =
     [js ''ab'', js ''cd'', js ''efg'', js ''h''] \<and>
   words_of (js '' ab cd  efg h '') = [js ''ab'', js ''cd'', js ''efg'', js ''h''] \<and>
   normalize_ws (js '' ab cd  efg h '') = js ''ab cd efg h''"
proof -
  have s: "split_ws (js '' ab cd  efg h '') = [[], js ''ab'', js ''cd'', js ''efg'', js ''h'', []]"
    by (simp add: js_def is_ws_def split_ws.simps not_ws_def)
  have h: "\<forall>w\<in>set (split_ws (js '' ab cd  efg h '')). w \<noteq> [] \<longrightarrow> length w \<le> (7::nat)"
    unfolding s by (simp add: js_def)
  have e: "wrapLine length (7::nat) (js '' ab cd  efg h '') = [js ''ab cd'', js ''efg h '']"
    by (simp add: wrapLine_def js_def trim_def is_ws_def split_ws.simps not_ws_def
        is_high_surrogate_def is_low_surrogate_def)
  have w: "words_of (js '' ab cd  efg h '') = [js ''ab'', js ''cd'', js ''efg'', js ''h'']"
    by (simp add: words_of_def s) (simp add: js_def)
  show ?thesis
    using wrapLine_reconstruction[OF h] s w
    by (simp add: e normalize_ws_def) (simp add: js_def)
qed

text \<open>
  Claim C2 as stated fails at the line \<open>"abcdefgh"\<close> for the width 3, widths counted in
  code units: the word is cut into \<open>"abc"\<close>, \<open>"def"\<close>, \<open>"gh"\<close>, and joining them with spaces
  gives three words where the line has one.
\<close>

theorem wrapLine_reconstruction_counterexample:
  "wrapLine length (3::nat) (js ''abcdefgh'') = [js ''abc'', js ''def'', js ''gh''] \<and>
   join_sp (wrapLine length (3::nat) (js ''abcdefgh'')) = js ''abc def gh'' \<and>
   normalize_ws (join_sp (wrapLine length (3::nat) (js ''abcdefgh''))) = js ''abc def gh'' \<and>
   normalize_ws (js ''abcdefgh'') = js ''abcdefgh''"
  by (simp add: wrapLine_def js_def trim_def is_ws_def split_ws.simps not_ws_def
      is_high_surrogate_def is_low_surrogate_def normalize_ws_def words_of_def)

section \<open>Properties of applyTemplate\<close>

lemma class_facts [simp]:
  "\<not> is_ws LBRACE" "\<not> is_ws RBRACE" "\<not> is_ident LBRACE" "\<not> is_ident RBRACE"
  by (simp_all add: is_ws_def is_ident_def is_alnum_def is_digit_def)

lemma ident_not_ws: "is_ident c \<Longrightarrow> \<not> is_ws c"
proof
  assume i: "is_ident c" and w: "is_ws c"
  from w consider "c = 9" | "c = 10" | "c = 11" | "c = 12" | "c = 13" | "c = 32" | "c = 0xA0"
    | "c = 0x1680" | "0x2000 \<le> c" | "c = 0x2028" | "c = 0x2029" | "c = 0x202F" | "c = 0x205F" | "c = 0x3000" | "c = 0xFEFF"
    by (auto simp: is_ws_def)
  then show False using i
    by cases (auto simp: is_ident_def is_alnum_def is_digit_def word_le_nat_alt)
qed

lemma m_token_tail: "m_token (c # d # r0) = (if c = LBRACE \<and> d = LBRACE then tok_tail r0 else None)"
  by (simp add: m_token_def tok_tail_def)

lemma m_token_short [simp]: "m_token [] = None" "m_token [c] = None"
  by (simp_all add: m_token_def)

lemma m_token_not_brace [simp]: "c \<noteq> LBRACE \<Longrightarrow> m_token (c # cs) = None"
  by (cases cs) (simp_all add: m_token_tail)

lemma tok_tail_intro:
  assumes "key \<noteq> []" "list_all is_ident key" "list_all is_ws ws1" "list_all is_ws ws2"
  shows "tok_tail (ws1 @ key @ ws2 @ [RBRACE, RBRACE] @ post) = Some (key, post)"
proof -
  obtain k ks where k: "key = k # ks" using assms(1) by (cases key) auto
  then have ki: "is_ident k" using assms(2) by simp
  have r1: "dropWhile is_ws (ws1 @ key @ ws2 @ [RBRACE, RBRACE] @ post) = key @ ws2 @ [RBRACE, RBRACE] @ post"
    using assms(3) k ident_not_ws[OF ki] by (simp add: dropWhile_append list_all_iff)
  have tk: "takeWhile is_ident (key @ ws2 @ [RBRACE, RBRACE] @ post) = key"
    using assms(2,4) by (cases ws2) (auto simp: takeWhile_append list_all_iff dest: ident_not_ws)
  have r2: "dropWhile is_ident (key @ ws2 @ [RBRACE, RBRACE] @ post) = ws2 @ [RBRACE, RBRACE] @ post"
    using assms(2,4) by (cases ws2) (auto simp: dropWhile_append list_all_iff dest: ident_not_ws)
  have r3: "dropWhile is_ws (ws2 @ [RBRACE, RBRACE] @ post) = [RBRACE, RBRACE] @ post"
    using assms(4) by (simp add: dropWhile_append list_all_iff)
  show ?thesis unfolding tok_tail_def Let_def r1 tk r2 r3 using assms(1) by simp
qed

lemma m_token_intro:
  assumes "key \<noteq> []" "list_all is_ident key" "list_all is_ws ws1" "list_all is_ws ws2"
  shows "m_token (token ws1 key ws2 @ post) = Some (key, post)"
  using tok_tail_intro[OF assms, of post] by (simp add: m_token_tail)

lemma tok_tail_SomeD:
  assumes "tok_tail r0 = Some (key, rest)"
  shows "\<exists>ws1 ws2. r0 = ws1 @ key @ ws2 @ [RBRACE, RBRACE] @ rest \<and> key \<noteq> [] \<and>
           list_all is_ident key \<and> list_all is_ws ws1 \<and> list_all is_ws ws2"
proof -
  let ?r1 = "dropWhile is_ws r0"
  let ?r2 = "dropWhile is_ident ?r1"
  let ?r3 = "dropWhile is_ws ?r2"
  from assms have key: "key = takeWhile is_ident ?r1" and ne: "key \<noteq> []"
    and r3: "?r3 = RBRACE # RBRACE # rest"
    by (auto simp: tok_tail_def Let_def split: if_splits list.splits)
  have "r0 = takeWhile is_ws r0 @ ?r1" by simp
  also have "?r1 = key @ ?r2" unfolding key by simp
  also have "?r2 = takeWhile is_ws ?r2 @ ?r3" by simp
  finally have "r0 = takeWhile is_ws r0 @ key @ takeWhile is_ws ?r2 @ [RBRACE, RBRACE] @ rest"
    unfolding r3 by simp
  moreover have "list_all is_ident key" unfolding key by (auto simp: list_all_iff dest: set_takeWhileD)
  moreover have "list_all is_ws (takeWhile is_ws r0)" "list_all is_ws (takeWhile is_ws ?r2)"
    by (auto simp: list_all_iff dest: set_takeWhileD)
  ultimately show ?thesis using ne by blast
qed

lemma m_token_SomeD:
  assumes "m_token s = Some (key, rest)"
  shows "\<exists>ws1 ws2. s = token ws1 key ws2 @ rest \<and> key \<noteq> [] \<and>
           list_all is_ident key \<and> list_all is_ws ws1 \<and> list_all is_ws ws2"
proof -
  from assms obtain r0 where s: "s = LBRACE # LBRACE # r0" and t: "tok_tail r0 = Some (key, rest)"
    by (cases s rule: code_points.cases) (auto simp: m_token_tail split: if_splits)
  from tok_tail_SomeD[OF t] s show ?thesis by auto
qed

lemma m_token_length: "m_token s = Some (key, rest) \<Longrightarrow> length rest < length s"
  by (drule m_token_SomeD) auto

lemma applyTemplate_Nil [simp]: "applyTemplate [] vals = []"
  by (simp add: applyTemplate_def replace_all_Nil)

lemma applyTemplate_hit:
  "m_token s = Some (key, rest) \<Longrightarrow>
     applyTemplate s vals = to_text (get_prop vals key) @ applyTemplate rest vals"
  unfolding applyTemplate_def
  by (rule replace_all_hit) (auto dest: m_token_length)

lemma applyTemplate_skip:
  "m_token (c # cs) = None \<Longrightarrow> applyTemplate (c # cs) vals = c # applyTemplate cs vals"
  unfolding applyTemplate_def by (rule replace_all_skip)

lemma applyTemplate_token:
  assumes "key \<noteq> []" "list_all is_ident key" "list_all is_ws ws1" "list_all is_ws ws2"
  shows "applyTemplate (token ws1 key ws2 @ post) vals =
           to_text (get_prop vals key) @ applyTemplate post vals"
  by (rule applyTemplate_hit) (rule m_token_intro[OF assms])

lemma applyTemplate_untouched: "no_match m_token t \<Longrightarrow> applyTemplate t vals = t"
  unfolding applyTemplate_def by (rule replace_all_id)

lemma tok_tail_context:
  "tok_tail (r0 @ LBRACE # x) = map_option (\<lambda>(k, r). (k, r @ LBRACE # x)) (tok_tail r0)"
proof -
  let ?x = "LBRACE # x"
  let ?r1 = "dropWhile is_ws r0"
  let ?r2 = "dropWhile is_ident ?r1"
  let ?r3 = "dropWhile is_ws ?r2"
  show ?thesis
  proof (cases "\<forall>c\<in>set r0. is_ws c")
    case True
    then have a: "dropWhile is_ws (r0 @ ?x) = ?x" and b: "?r1 = []"
      by (simp_all add: dropWhile_append)
    show ?thesis unfolding tok_tail_def Let_def a b by simp
  next
    case False
    then obtain z0 where z0: "z0 \<in> set r0" "\<not> is_ws z0" by blast
    have d1: "dropWhile is_ws (r0 @ ?x) = ?r1 @ ?x" using z0 by (simp add: dropWhile_append1)
    show ?thesis
    proof (cases "\<forall>c\<in>set ?r1. is_ident c")
      case True
      then have a: "takeWhile is_ident (?r1 @ ?x) = ?r1" and b: "dropWhile is_ident (?r1 @ ?x) = ?x"
        and c: "takeWhile is_ident ?r1 = ?r1" and d: "?r2 = []"
        by (simp_all add: takeWhile_append dropWhile_append)
      show ?thesis unfolding tok_tail_def Let_def d1 a b c d by (simp split: list.splits)
    next
      case nid: False
      then obtain z where z: "z \<in> set ?r1" "\<not> is_ident z" by blast
      have t2: "takeWhile is_ident (?r1 @ ?x) = takeWhile is_ident ?r1"
        using z by (simp add: takeWhile_append1)
      have d2: "dropWhile is_ident (?r1 @ ?x) = ?r2 @ ?x"
        using z by (simp add: dropWhile_append1)
      show ?thesis
      proof (cases "\<forall>c\<in>set ?r2. is_ws c")
        case True
        then have a: "dropWhile is_ws (?r2 @ ?x) = ?x" and b: "?r3 = []"
          by (simp_all add: dropWhile_append)
        show ?thesis unfolding tok_tail_def Let_def d1 t2 d2 a b by (simp split: list.splits)
      next
        case False
        then obtain z3 where z3: "z3 \<in> set ?r2" "\<not> is_ws z3" by blast
        have d3: "dropWhile is_ws (?r2 @ ?x) = ?r3 @ ?x" using z3 by (simp add: dropWhile_append1)
        have ne3: "?r3 \<noteq> []" using z3 by (simp add: dropWhile_eq_Nil_conv) blast
        show ?thesis
        proof (cases ?r3 rule: code_points.cases)
          case 1
          with ne3 show ?thesis by simp
        next
          case (2 e)
          show ?thesis unfolding tok_tail_def Let_def d1 t2 d2 d3 2 by simp
        next
          case (3 e f rest)
          show ?thesis unfolding tok_tail_def Let_def d1 t2 d2 d3 3 by simp
        qed
      qed
    qed
  qed
qed

lemma m_token_context:
  assumes "u \<noteq> []"
  shows "m_token (u @ LBRACE # LBRACE # x) = map_option (\<lambda>(k, r). (k, r @ LBRACE # LBRACE # x)) (m_token u)"
proof (cases u rule: code_points.cases)
  case 1
  with assms show ?thesis by simp
next
  case (2 c)
  then show ?thesis by (simp add: m_token_tail tok_tail_def)
next
  case (3 c d r0)
  then show ?thesis using tok_tail_context[of r0 "LBRACE # x"] by (simp add: m_token_tail)
qed

lemma applyTemplate_append_token:
  "applyTemplate (u @ LBRACE # LBRACE # x) vals =
     applyTemplate u vals @ applyTemplate (LBRACE # LBRACE # x) vals"
proof (induction "length u" arbitrary: u rule: less_induct)
  case less
  let ?x = "LBRACE # LBRACE # x"
  show ?case
  proof (cases u)
    case Nil
    then show ?thesis by simp
  next
    case (Cons c cs)
    then have ne: "u \<noteq> []" by simp
    show ?thesis
    proof (cases "m_token u")
      case None
      then have "m_token (u @ ?x) = None" using m_token_context[OF ne, of x] by simp
      then have "applyTemplate (u @ ?x) vals = c # applyTemplate (cs @ ?x) vals"
        using Cons by (simp add: applyTemplate_skip)
      also have "\<dots> = c # applyTemplate cs vals @ applyTemplate ?x vals"
        using less[of cs] Cons by simp
      finally show ?thesis using None Cons by (simp add: applyTemplate_skip)
    next
      case (Some a)
      obtain k r where a: "a = (k, r)" by (cases a)
      with Some have m: "m_token u = Some (k, r)" by simp
      then have "m_token (u @ ?x) = Some (k, r @ ?x)" using m_token_context[OF ne, of x] by simp
      then have "applyTemplate (u @ ?x) vals = to_text (get_prop vals k) @ applyTemplate (r @ ?x) vals"
        by (rule applyTemplate_hit)
      also have "\<dots> = to_text (get_prop vals k) @ applyTemplate r vals @ applyTemplate ?x vals"
        using less[of r] m_token_length[OF m] by simp
      finally show ?thesis using applyTemplate_hit[OF m] by simp
    qed
  qed
qed

lemma applyTemplate_around_token:
  assumes "key \<noteq> []" "list_all is_ident key" "list_all is_ws ws1" "list_all is_ws ws2"
  shows "applyTemplate (pre @ token ws1 key ws2 @ post) vals =
           applyTemplate pre vals @ to_text (get_prop vals key) @ applyTemplate post vals"
proof -
  have "applyTemplate (pre @ token ws1 key ws2 @ post) vals =
        applyTemplate pre vals @ applyTemplate (token ws1 key ws2 @ post) vals"
    using applyTemplate_append_token[of pre "ws1 @ key @ ws2 @ [RBRACE, RBRACE] @ post" vals]
    by simp
  then show ?thesis using applyTemplate_token[OF assms, of post vals] by simp
qed


lemma only_placeholders_append: "only_placeholders vals (p @ u) \<Longrightarrow> only_placeholders vals u"
  by (induction p) auto

lemma has_open_pair_Cons:
  "has_open_pair (c # s) \<longleftrightarrow> (c = LBRACE \<and> (\<exists>z. s = LBRACE # z)) \<or> has_open_pair s"
  by (cases s) auto

lemma has_open_pair_append_free:
  "LBRACE \<notin> set a \<Longrightarrow> has_open_pair (a @ b) = has_open_pair b"
  by (induction a) (auto simp: has_open_pair_Cons Cons_eq_append_conv)

lemma m_token_opens: "m_token s = Some (k, r) \<Longrightarrow> opens_token s"
  by (drule m_token_SomeD) (auto simp: opens_token_def)

lemma no_open_pair_no_match: "\<not> has_open_pair s \<Longrightarrow> no_match m_token s"
proof (induction s)
  case Nil
  then show ?case by simp
next
  case (Cons c cs)
  have "m_token (c # cs) = None"
  proof (cases "m_token (c # cs)")
    case (Some a)
    then obtain k r where "m_token (c # cs) = Some (k, r)" by (cases a) auto
    from m_token_opens[OF this] Cons.prems show ?thesis
      by (cases cs) (auto simp: opens_token_def)
  qed simp
  moreover have "\<not> has_open_pair cs" using Cons.prems by (simp add: has_open_pair_Cons)
  ultimately show ?case using Cons.IH by simp
qed

lemma applyTemplate_no_open_pair:
  assumes "\<forall>k v. vals k = Some v \<longrightarrow> LBRACE \<notin> set (to_text v)"
  shows "only_placeholders vals t \<Longrightarrow>
         \<not> has_open_pair (applyTemplate t vals) \<and>
         (\<forall>z. applyTemplate t vals = LBRACE # z \<longrightarrow> (\<exists>z'. t = LBRACE # z'))"
proof (induction "length t" arbitrary: t rule: less_induct)
  case less
  show ?case
  proof (cases t)
    case Nil
    then show ?thesis by simp
  next
    case (Cons c cs)
    show ?thesis
    proof (cases "m_token t")
      case None
      then have r: "applyTemplate t vals = c # applyTemplate cs vals"
        using Cons by (simp add: applyTemplate_skip)
      have oc: "only_placeholders vals cs" using less.prems Cons by simp
      from less.hyps[of cs] oc Cons
      have ih: "\<not> has_open_pair (applyTemplate cs vals)"
        "\<And>z. applyTemplate cs vals = LBRACE # z \<Longrightarrow> \<exists>z'. cs = LBRACE # z'"
        by auto
      have "\<not> (c = LBRACE \<and> (\<exists>z. applyTemplate cs vals = LBRACE # z))"
      proof
        assume a: "c = LBRACE \<and> (\<exists>z. applyTemplate cs vals = LBRACE # z)"
        then obtain z' where "cs = LBRACE # z'" using ih(2) by blast
        with a Cons have "opens_token t" by (simp add: opens_token_def)
        with less.prems Cons None show False by simp
      qed
      with ih(1) r have "\<not> has_open_pair (applyTemplate t vals)"
        by (simp add: has_open_pair_Cons)
      moreover have "\<forall>z. applyTemplate t vals = LBRACE # z \<longrightarrow> (\<exists>z'. t = LBRACE # z')"
        using r Cons by simp
      ultimately show ?thesis by blast
    next
      case (Some a)
      obtain k rest where a: "a = (k, rest)" by (cases a)
      with Some have m: "m_token t = Some (k, rest)" by simp
      have r: "applyTemplate t vals = to_text (get_prop vals k) @ applyTemplate rest vals"
        using m by (rule applyTemplate_hit)
      from m_token_SomeD[OF m] obtain ws1 ws2 where t: "t = token ws1 k ws2 @ rest" by blast
      have "opens_token t" using m by (rule m_token_opens)
      with less.prems Cons m obtain v where v: "vals k = Some v" by auto
      then have gp: "get_prop vals k = v" by (simp add: get_prop_def)
      have free: "LBRACE \<notin> set (to_text (get_prop vals k))" using assms v gp by blast
      have "only_placeholders vals rest"
        using less.prems only_placeholders_append[of vals "token ws1 k ws2" rest] t by simp
      with less.hyps[of rest] m_token_length[OF m]
      have ih: "\<not> has_open_pair (applyTemplate rest vals)" by simp
      have "\<not> has_open_pair (applyTemplate t vals)"
        unfolding r using free ih by (simp add: has_open_pair_append_free)
      moreover have "\<exists>z'. t = LBRACE # z'" using t by simp
      ultimately show ?thesis by blast
    qed
  qed
qed

text \<open>
  Claim C5 against the code: a key that the values object does not hold is not always
  replaced by the empty string. \<^verbatim>\<open>values[key]\<close> also finds what every object inherits from
  \<^verbatim>\<open>Object.prototype\<close>, so the token \<^verbatim>\<open>{{constructor}}\<close> is replaced by the text of the
  function \<^verbatim>\<open>Object\<close>, for every state of the form.
\<close>

theorem applyTemplate_inherited_key:
  "normalized parse_date format_date fs (js ''constructor'') = None \<and>
   applyTemplate (js ''{{constructor}}'') (normalized parse_date format_date fs) =
     js ''function Object() { [native code] }'' \<and>
   applyTemplate (js ''{{toString}}'') Map.empty = js ''function toString() { [native code] }''"
proof -
  have n: "normalized parse_date format_date fs (js ''constructor'') = None"
    by (simp add: normalized_def js_def Let_def)
  have "get_prop (normalized parse_date format_date fs) (js ''constructor'') = native_fn ''Object''"
    unfolding get_prop_def n by (simp add: object_prototype_def)
  then have "applyTemplate (js ''{{constructor}}'') (normalized parse_date format_date fs) =
      js ''function Object() { [native code] }''"
    by (simp add: applyTemplate_def replace_all.simps m_token_def js_def is_ws_def is_ident_def
        is_alnum_def is_digit_def to_text_def native_fn_def)
  moreover have "applyTemplate (js ''{{toString}}'') Map.empty =
      js ''function toString() { [native code] }''"
    by (simp add: applyTemplate_def replace_all.simps m_token_def js_def is_ws_def is_ident_def
        is_alnum_def is_digit_def get_prop_def to_text_def object_prototype_def native_fn_def)
  ultimately show ?thesis using n by simp
qed

text \<open>
  What holds of claim C5: a token whose key is no member of \<^verbatim>\<open>Object.prototype\<close> is replaced
  by the value the object holds under the key, which is the empty string for \<^verbatim>\<open>null\<close> and
  \<^verbatim>\<open>undefined\<close>, and by the empty string when it holds none; white space inside the braces is ignored; text before the
  token without an opening brace is copied; and a template in which the expression matches
  nowhere is returned as it is.
\<close>

theorem applyTemplate_own_key:
  assumes "key \<noteq> []" "list_all is_ident key" "list_all is_ws ws1" "list_all is_ws ws2"
    and "object_prototype key = None" and "LBRACE \<notin> set pre"
  shows "applyTemplate (pre @ token ws1 key ws2 @ post) vals =
           pre @ (case vals key of Some v \<Rightarrow> to_text v | None \<Rightarrow> []) @ applyTemplate post vals"
proof -
  have "no_match m_token pre" using assms(6) by (induction pre) auto
  then have "applyTemplate pre vals = pre" by (rule applyTemplate_untouched)
  moreover have "to_text (get_prop vals key) = (case vals key of Some v \<Rightarrow> to_text v | None \<Rightarrow> [])"
    using assms(5) by (auto simp: get_prop_def to_text_def split: option.splits)
  ultimately show ?thesis using applyTemplate_around_token[OF assms(1-4), of pre post vals] by simp
qed

text \<open>
  The theorem at the template \<open>"a {{x}} b {{ y-z }} {{}} {{ date }}."\<close> for a map that holds
  \<^verbatim>\<open>null\<close> under \<open>date\<close> and nothing under \<open>x\<close>: both tokens vanish, the two texts in braces
  that are no tokens stay.
\<close>

theorem applyTemplate_own_key_witness:
  "object_prototype (js ''x'') = None \<and>
   applyTemplate (js ''a '' @ token [] (js ''x'') [] @ js '' b {{ y-z }} {{}} {{ date }}.'')
     [js ''date'' \<mapsto> Null] = js ''a  b {{ y-z }} {{}} .''"
proof -
  let ?v = "[js ''date'' \<mapsto> Null]"
  have k: "js ''x'' \<noteq> []" "list_all is_ident (js ''x'')" "list_all is_ws []"
    "object_prototype (js ''x'') = None" "LBRACE \<notin> set (js ''a '')"
    by (simp_all add: js_def is_ident_def is_alnum_def is_digit_def object_prototype_def)
  have v: "?v (js ''x'') = None" by (simp add: js_def)
  have b: "applyTemplate (js '' b {{ y-z }} {{}} {{ date }}.'') ?v = js '' b {{ y-z }} {{}} .''"
    by (simp add: applyTemplate_def replace_all.simps m_token_def js_def is_ws_def is_ident_def
        is_alnum_def is_digit_def get_prop_def to_text_def)
  show ?thesis
    using k v
      applyTemplate_own_key[where key = "js ''x''" and ?ws1.0 = "[]" and ?ws2.0 = "[]"
        and vals = ?v and pre = "js ''a ''" and post = "js '' b {{ y-z }} {{}} {{ date }}.''"]
    unfolding b by (simp add: js_def)
qed

text \<open>
  Claim C6, as amended. For any template that contains only recognised placeholders
  (wherever two opening braces stand, a token begins whose key exists in the values map)
  and any values map none of whose values contains an opening brace, applyTemplate leaves
  no two opening braces in a row, hence no \<^verbatim>\<open>{{...}}\<close> token, in the output.
\<close>

theorem applyTemplate_leaves_no_token:
  assumes "\<forall>k v. vals k = Some v \<longrightarrow> LBRACE \<notin> set (to_text v)"
    and "only_placeholders vals t"
  shows "\<not> has_open_pair (applyTemplate t vals) \<and> no_match m_token (applyTemplate t vals)"
proof -
  have a: "\<not> has_open_pair (applyTemplate t vals)"
    using applyTemplate_no_open_pair[OF assms] by (rule conjunct1)
  then have "no_match m_token (applyTemplate t vals)" by (rule no_open_pair_no_match)
  with a show ?thesis by (rule conjI)
qed

text \<open>The theorem at the template \<open>"Dear {{ position }}, {{date}}!"\<close>.\<close>

theorem applyTemplate_leaves_no_token_witness:
  "only_placeholders [js ''position'' \<mapsto> Str (js ''Clerk''), js ''date'' \<mapsto> Str []]
     (js ''Dear {{ position }}, {{date}}!'') \<and>
   applyTemplate (js ''Dear {{ position }}, {{date}}!'')
     [js ''position'' \<mapsto> Str (js ''Clerk''), js ''date'' \<mapsto> Str []] = js ''Dear Clerk, !'' \<and>
   \<not> has_open_pair (applyTemplate (js ''Dear {{ position }}, {{date}}!'')
     [js ''position'' \<mapsto> Str (js ''Clerk''), js ''date'' \<mapsto> Str []]) \<and>
   no_match m_token (applyTemplate (js ''Dear {{ position }}, {{date}}!'')
     [js ''position'' \<mapsto> Str (js ''Clerk''), js ''date'' \<mapsto> Str []])"
proof -
  let ?v = "[js ''position'' \<mapsto> Str (js ''Clerk''), js ''date'' \<mapsto> Str []]"
  have h1: "\<forall>k v. ?v k = Some v \<longrightarrow> LBRACE \<notin> set (to_text v)"
    by (auto simp: js_def to_text_def split: if_splits)
  have h2: "only_placeholders ?v (js ''Dear {{ position }}, {{date}}!'')"
    by (simp add: opens_token_def m_token_def js_def is_ws_def is_ident_def is_alnum_def
        is_digit_def)
  have e: "applyTemplate (js ''Dear {{ position }}, {{date}}!'') ?v = js ''Dear Clerk, !''"
    by (simp add: applyTemplate_def replace_all.simps m_token_def js_def is_ws_def is_ident_def
      is_alnum_def is_digit_def get_prop_def to_text_def)
  show ?thesis using h2 e applyTemplate_leaves_no_token[OF h1 h2] by simp
qed

text \<open>
  Claim C6 as stated fails where a value holds placeholder text: the template
  \<open>"{{position}}"\<close> contains only a recognised placeholder, its key exists in the map, and
  the output is the token \<open>"{{position}}"\<close> again.
\<close>

theorem applyTemplate_leaves_no_token_counterexample:
  "only_placeholders [js ''position'' \<mapsto> Str (js ''{{position}}'')] (js ''{{position}}'') \<and>
   applyTemplate (js ''{{position}}'') [js ''position'' \<mapsto> Str (js ''{{position}}'')] =
     js ''{{position}}'' \<and>
   m_token (applyTemplate (js ''{{position}}'') [js ''position'' \<mapsto> Str (js ''{{position}}'')]) =
     Some (js ''position'', [])"
proof -
  have a: "only_placeholders [js ''position'' \<mapsto> Str (js ''{{position}}'')] (js ''{{position}}'')"
    by (simp add: opens_token_def m_token_def js_def is_ws_def is_ident_def is_alnum_def
        is_digit_def)
  have b: "applyTemplate (js ''{{position}}'') [js ''position'' \<mapsto> Str (js ''{{position}}'')] =
     js ''{{position}}''"
    by (simp add: applyTemplate_def replace_all.simps m_token_def js_def is_ws_def is_ident_def
      is_alnum_def is_digit_def get_prop_def to_text_def)
  have c: "m_token (js ''{{position}}'') = Some (js ''position'', [])"
    by (simp add: m_token_def js_def is_ws_def is_ident_def is_alnum_def is_digit_def)
  show ?thesis using a c unfolding b by simp
qed

text \<open>
  Claim C10. applyTemplate substitutes in one pass and never scans a replacement: for every
  template, wherever a token stands whose key the values map gives a string, the output is
  the substituted text before the token, then that string as it is, whatever it contains
  and whatever else the map holds, then the substituted text behind the token.
\<close>

theorem applyTemplate_single_pass:
  assumes "key \<noteq> []" "list_all is_ident key" "list_all is_ws ws1" "list_all is_ws ws2"
    and "vals key = Some (Str s)"
  shows "applyTemplate (pre @ token ws1 key ws2 @ post) vals =
           applyTemplate pre vals @ s @ applyTemplate post vals"
proof -
  have "to_text (get_prop vals key) = s" using assms(5) by (simp add: get_prop_def to_text_def)
  then show ?thesis using applyTemplate_around_token[OF assms(1-4), of pre post vals] by simp
qed

text \<open>
  The theorem at the template \<open>"Dear {{ position }}, {{date}}!"\<close> where the position is the
  text \<open>"{{date}}"\<close> and the key \<open>date\<close> exists: the text stays, the token of the template
  is replaced.
\<close>

theorem applyTemplate_single_pass_witness:
  "applyTemplate (js ''Dear '' @ token [SPACE] (js ''position'') [SPACE] @ js '', {{date}}!'')
     [js ''position'' \<mapsto> Str (js ''{{date}}''), js ''date'' \<mapsto> Str (js ''11 May'')] =
   js ''Dear {{date}}, 11 May!'' \<and>
   applyTemplate (js ''Dear '')
     [js ''position'' \<mapsto> Str (js ''{{date}}''), js ''date'' \<mapsto> Str (js ''11 May'')] @
   js ''{{date}}'' @
   applyTemplate (js '', {{date}}!'')
     [js ''position'' \<mapsto> Str (js ''{{date}}''), js ''date'' \<mapsto> Str (js ''11 May'')] =
   js ''Dear {{date}}, 11 May!''"
proof -
  let ?v = "[js ''position'' \<mapsto> Str (js ''{{date}}''), js ''date'' \<mapsto> Str (js ''11 May'')]"
  have k: "js ''position'' \<noteq> []" "list_all is_ident (js ''position'')" "list_all is_ws [SPACE]"
    by (simp_all add: js_def is_ident_def is_alnum_def is_digit_def is_ws_def)
  have v: "?v (js ''position'') = Some (Str (js ''{{date}}''))" by (simp add: js_def)
  have a: "applyTemplate (js ''Dear '') ?v = js ''Dear ''"
    by (simp add: applyTemplate_def replace_all.simps m_token_def js_def is_ws_def is_ident_def
      is_alnum_def is_digit_def get_prop_def to_text_def)
  have b: "applyTemplate (js '', {{date}}!'') ?v = js '', 11 May!''"
    by (simp add: applyTemplate_def replace_all.simps m_token_def js_def is_ws_def is_ident_def
      is_alnum_def is_digit_def get_prop_def to_text_def)
  show ?thesis
    using k v
      applyTemplate_single_pass[where key = "js ''position''" and ?ws1.0 = "[SPACE]"
        and ?ws2.0 = "[SPACE]" and vals = ?v and s = "js ''{{date}}''"
        and pre = "js ''Dear ''" and post = "js '', {{date}}!''"]
    unfolding a b by (simp add: js_def)
qed

section \<open>Properties of formatToCanadianLong\<close>

text \<open>
  Beyond the claims, the part of claim C7 that the program decides: an input that does not
  match \<^verbatim>\<open>YYYY-MM-DD\<close> is returned unchanged, so is one that matches and is no valid date,
  and one that matches and is a valid date is returned as the host's formatter renders it.
  In particular \<open>"11 February 2026"\<close> is returned unchanged and \<open>"2026-02-11"\<close> is handed
  to the formatter. What the formatter prints for the locale \<^verbatim>\<open>en-CA\<close> is not in the program.
\<close>

theorem formatToCanadianLong_cases:
  "formatToCanadianLong parse_date format_date v =
     (if is_iso_date v
      then (case parse_date (v @ js ''T00:00:00'') of Some d \<Rightarrow> format_date d | None \<Rightarrow> v)
      else v) \<and>
   formatToCanadianLong parse_date format_date (js ''11 February 2026'') = js ''11 February 2026'' \<and>
   formatToCanadianLong parse_date format_date (js ''2026-02-11'') =
     (case parse_date (js ''2026-02-11T00:00:00'') of
        Some d \<Rightarrow> format_date d
      | None \<Rightarrow> js ''2026-02-11'')"
proof -
  have a: "formatToCanadianLong parse_date format_date u =
     (if is_iso_date u
      then (case parse_date (u @ js ''T00:00:00'') of Some d \<Rightarrow> format_date d | None \<Rightarrow> u)
      else u)" for u
    by (cases "u = []") (simp_all add: formatToCanadianLong_def is_iso_date_def)
  have b: "\<not> is_iso_date (js ''11 February 2026'')"
    by (simp add: is_iso_date_def js_def)
  have c: "is_iso_date (js ''2026-02-11'')"
    by (simp add: is_iso_date_def js_def is_digit_def)
  have d: "js ''2026-02-11'' @ js ''T00:00:00'' = js ''2026-02-11T00:00:00''"
    by (simp add: js_def)
  show ?thesis using a[of v] a[of "js ''11 February 2026''"] a[of "js ''2026-02-11''"] b c d
    by simp
qed

text \<open>The theorem for a host that rejects every date and for one that parses every date.\<close>

theorem formatToCanadianLong_cases_witness:
  "formatToCanadianLong (\<lambda>_. None) (\<lambda>_. js ''never'') (js ''2026-13-45'') = js ''2026-13-45'' \<and>
   formatToCanadianLong (\<lambda>_. Some 0) (\<lambda>_. js ''rendered'') (js ''2026-02-11'') = js ''rendered'' \<and>
   formatToCanadianLong (\<lambda>_. Some 0) (\<lambda>_. js ''rendered'') (js ''Feb 11'') = js ''Feb 11''"
proof -
  have c: "is_iso_date (js ''2026-13-45'')" "\<not> is_iso_date (js ''Feb 11'')"
    by (simp_all add: is_iso_date_def js_def is_digit_def)
  show ?thesis
    using c formatToCanadianLong_cases[of "\<lambda>_. None" "\<lambda>_. js ''never''" "js ''2026-13-45''"]
      formatToCanadianLong_cases[of "\<lambda>_. Some 0" "\<lambda>_. js ''rendered''" "js ''Feb 11''"]
    by simp
qed

section \<open>Properties of downloadPdf\<close>















lemma the_width_Inr [simp]: "the_width (\<lambda>s. Inr (f s)) = f"
  by (rule ext) (simp add: the_width_def)



















end
